theory Spec2Isabelle
  imports Complex_Main "HOL-Library.Multiset" "HOL-Library.Word" "HOL-Library.Log_Nat"
begin

section \<open>Common Python notions\<close>

text \<open>
  The two modules are \<^verbatim>\<open>manga_panel_processor/layout.py\<close> (reading order of panels)
  and \<^verbatim>\<open>image_panel_border_cleaner/border.py\<close> (border line search and cropping).
  Python's unbounded integers are \<^typ>\<open>int\<close>. A float is the rational number it
  denotes (\<^typ>\<open>rat\<close>). In \<^verbatim>\<open>border.py\<close> every float operation is rounded to a double
  by \<open>fl\<close> below, since the scores of the search and the search zones depend on the
  rounding. In \<^verbatim>\<open>layout.py\<close> the floats are halves and quarters of integers, and one
  product with \<open>0.6\<close> that is only compared with an integer; they are computed exactly.
  An exception is a value \<open>Inl e\<close> of a sum type; a normal return is \<open>Inr v\<close>.
\<close>

datatype error = IndexError

text \<open>
  Rounding to a double: the nearest number with a significand of 53 bits, a tie going to
  the even significand. \<open>float_exponent q\<close> is the \<open>e\<close> with \<open>2^e \<le> q < 2^(e+1)\<close> for a
  positive \<open>q\<close>. The exponent is not bounded: overflow and subnormal numbers, which start
  at \<open>2^1024\<close> and below \<open>2^-1022\<close>, are not modelled.
\<close>

definition round_half_even :: "rat \<Rightarrow> int" where
  "round_half_even q =
     (let f = \<lfloor>q\<rfloor>; r = q - of_int f
      in if r < 1 / 2 then f else if 1 / 2 < r then f + 1 else if even f then f else f + 1)"

definition float_exponent :: "rat \<Rightarrow> int" where
  "float_exponent q =
     (case quotient_of q of (a, b) \<Rightarrow>
        let e0 = bitlen a - bitlen b in if q < 2 powi e0 then e0 - 1 else e0)"

definition fl :: "rat \<Rightarrow> rat" where
  "fl q =
     (if q = 0 then 0
      else let ulp = 2 powi (float_exponent \<bar>q\<bar> - 52)
           in sgn q * of_int (round_half_even (\<bar>q\<bar> / ulp)) * ulp)"

text \<open>\<^verbatim>\<open>xs[i]\<close> for a list and an index that is never negative in this code.\<close>

definition py_get :: "'a list \<Rightarrow> nat \<Rightarrow> error + 'a" where
  "py_get xs i = (if i < length xs then Inr (xs ! i) else Inl IndexError)"

text \<open>
  \<^verbatim>\<open>max(xs, key=key)\<close> on a non-empty list: the first element whose key is maximal
  (a later element replaces the candidate only when its key is strictly greater).
\<close>

fun max_from :: "('a \<Rightarrow> 'k::linorder) \<Rightarrow> 'a \<Rightarrow> 'a list \<Rightarrow> 'a" where
  "max_from key best [] = best"
| "max_from key best (x # xs) = max_from key (if key best < key x then x else best) xs"

definition py_max :: "('a \<Rightarrow> 'k::linorder) \<Rightarrow> 'a list \<Rightarrow> 'a" where
  "py_max key xs = max_from key (hd xs) (tl xs)"

section \<open>layout.py: sort_panels_by_column_then_row\<close>

text \<open>
  An item of the caller is a Python object: the model keeps its identity (a reference,
  \<^typ>\<open>nat\<close>) beside its value, the rectangle \<open>(x, y, w, h)\<close> that line 26 unpacks.
  The model covers rectangle items (the \<^verbatim>\<open>else\<close> branch of line 23); contour arrays,
  which go through \<^verbatim>\<open>cv2.boundingRect\<close> first, are outside it.
\<close>

type_synonym rect = "int \<times> int \<times> int \<times> int"
type_synonym item = "nat \<times> rect"

text \<open>The tuple \<^verbatim>\<open>(item, x_center, y_top, x, y, w, h)\<close> of line 28; \<open>d[k]\<close> is field \<open>dk\<close>.\<close>

record datum =
  d0 :: item
  d1 :: rat
  d2 :: int
  d3 :: int
  d4 :: int
  d5 :: int
  d6 :: int

definition mk_datum :: "item \<Rightarrow> datum" where
  "mk_datum it = (case snd it of (x, y, w, h) \<Rightarrow>
     \<lparr>d0 = it, d1 = of_int x + of_int w / 2, d2 = y, d3 = x, d4 = y, d5 = w, d6 = h\<rparr>)"

text \<open>Lines 20 to 29: one pass over the items, the state is \<open>(data, max_x2)\<close>.\<close>

definition gather_step :: "datum list \<times> int \<Rightarrow> item \<Rightarrow> datum list \<times> int" where
  "gather_step st it = (case st of (data, max_x2) \<Rightarrow>
     (case snd it of (x, y, w, h) \<Rightarrow> (data @ [mk_datum it], max max_x2 (x + w))))"

definition gather :: "item list \<Rightarrow> datum list \<times> int" where
  "gather items = foldl gather_step ([], 0) items"

text \<open>
  Python compares two of the tuples by value: the items (rectangles) and the six derived
  fields. Two objects of equal value are equal whatever their identity.
\<close>

definition datum_eq :: "datum \<Rightarrow> datum \<Rightarrow> bool" where
  "datum_eq a b \<longleftrightarrow> snd (d0 a) = snd (d0 b) \<and> d1 a = d1 b \<and> d2 a = d2 b \<and> d3 a = d3 b
     \<and> d4 a = d4 b \<and> d5 a = d5 b \<and> d6 a = d6 b"

text \<open>\<^verbatim>\<open>d in xs\<close>.\<close>

definition py_in :: "datum \<Rightarrow> datum list \<Rightarrow> bool" where
  "py_in d xs = list_ex (datum_eq d) xs"

text \<open>Line 32, the test \<^verbatim>\<open>d[5] >= full_width * 0.6\<close>.\<close>

definition is_spanning :: "int \<Rightarrow> datum \<Rightarrow> bool" where
  "is_spanning full_width d \<longleftrightarrow> (of_int full_width :: rat) * (6 / 10) \<le> of_int (d5 d)"

definition spanning_of :: "datum list \<Rightarrow> int \<Rightarrow> datum list" where
  "spanning_of data full_width = filter (is_spanning full_width) data"

definition remaining_of :: "datum list \<Rightarrow> datum list \<Rightarrow> datum list" where
  "remaining_of data spanning = filter (\<lambda>d. \<not> py_in d spanning) data"

text \<open>Lines 31 to 38: the pair \<open>(remaining, spanning)\<close> after the fallback.\<close>

definition classify :: "datum list \<Rightarrow> int \<Rightarrow> datum list \<times> datum list" where
  "classify data full_width =
     (let spanning = spanning_of data full_width;
          remaining = remaining_of data spanning
      in if length remaining < 2 then (data, []) else (remaining, spanning))"

text \<open>Lines 42 to 45 on the list of centres: the gaps, the split index and \<open>split_x\<close>.\<close>

definition gaps_of :: "rat list \<Rightarrow> (rat \<times> nat) list" where
  "gaps_of x_centers =
     map (\<lambda>i. (x_centers ! (i + 1) - x_centers ! i, i)) [0..<length x_centers - 1]"

definition split_idx_of :: "rat list \<Rightarrow> nat" where
  "split_idx_of x_centers =
     (let gaps = gaps_of x_centers in if gaps \<noteq> [] then snd (py_max fst gaps) else 0)"

definition split_x_of :: "rat list \<Rightarrow> error + rat" where
  "split_x_of x_centers =
     (let split_idx = split_idx_of x_centers in
      case py_get x_centers split_idx of Inl e \<Rightarrow> Inl e
      | Inr a \<Rightarrow> (case py_get x_centers (split_idx + 1) of Inl e \<Rightarrow> Inl e
          | Inr b \<Rightarrow> Inr ((a + b) / 2)))"

text \<open>Lines 48 and 49.\<close>

definition left_group :: "datum list \<Rightarrow> rat \<Rightarrow> datum list" where
  "left_group remaining split_x = filter (\<lambda>d. d1 d < split_x) remaining"

definition right_group :: "datum list \<Rightarrow> rat \<Rightarrow> datum list" where
  "right_group remaining split_x = filter (\<lambda>d. split_x \<le> d1 d) remaining"

text \<open>Lines 52 to 57; \<^verbatim>\<open>sorted\<close> is stable, as \<^const>\<open>sort_key\<close> is.\<close>

definition columns_of :: "datum list \<Rightarrow> rat \<Rightarrow> bool \<Rightarrow> datum list list" where
  "columns_of remaining split_x rtl_order =
     (if \<not> rtl_order then [left_group remaining split_x, right_group remaining split_x]
      else [right_group remaining split_x, left_group remaining split_x])"

definition non_spanning_of :: "datum list list \<Rightarrow> datum list" where
  "non_spanning_of columns = foldl (\<lambda>acc col. acc @ sort_key d2 col) [] columns"

text \<open>
  Lines 63 to 72. The two indices \<open>i\<close> and \<open>j\<close> of the loop are the two list suffixes;
  when one list is used up, the leftovers of the other are appended (lines 71 and 72).
\<close>

fun merge_by_y_top :: "datum list \<Rightarrow> datum list \<Rightarrow> item list" where
  "merge_by_y_top (n # ns) (s # ss) =
     (if d2 s < d2 n then d0 s # merge_by_y_top (n # ns) ss
      else d0 n # merge_by_y_top ns (s # ss))"
| "merge_by_y_top ns ss = map d0 ns @ map d0 ss"

text \<open>Lines 19 to 41: the centre-sorted \<open>remaining\<close> and the \<open>spanning\<close> list.\<close>

definition partition_panels :: "item list \<Rightarrow> datum list \<times> datum list" where
  "partition_panels items =
     (let (data, max_x2) = gather items;
          full_width = max_x2;
          (remaining, spanning) = classify data full_width
      in (sort_key d1 remaining, spanning))"

definition sort_panels_by_column_then_row :: "item list \<Rightarrow> bool \<Rightarrow> error + item list" where
  "sort_panels_by_column_then_row items rtl_order =
     (if items = [] then Inr []
      else
        let (remaining, spanning) = partition_panels items;
            x_centers = map d1 remaining
        in case split_x_of x_centers of
             Inl e \<Rightarrow> Inl e
           | Inr split_x \<Rightarrow>
               let columns = columns_of remaining split_x rtl_order;
                   non_spanning = non_spanning_of columns;
                   spanning_sorted = sort_key d2 spanning
               in Inr (merge_by_y_top non_spanning spanning_sorted))"

text \<open>
  The right edge \<open>x + w\<close> (line 27), the width, the centre \<open>x + w/2\<close> and the top \<open>y\<close>
  (line 28) of an item, read from its rectangle.
\<close>

definition x_center :: "item \<Rightarrow> rat" where
  "x_center it = (case snd it of (x, y, w, h) \<Rightarrow> of_int x + of_int w / 2)"

definition y_top :: "item \<Rightarrow> int" where
  "y_top it = (case snd it of (x, y, w, h) \<Rightarrow> y)"

definition right_edge :: "item \<Rightarrow> int" where
  "right_edge it = (case snd it of (x, y, w, h) \<Rightarrow> x + w)"

definition width :: "item \<Rightarrow> int" where
  "width it = (case snd it of (x, y, w, h) \<Rightarrow> w)"

section \<open>border.py: _find_best_border_line\<close>

text \<open>
  A \<^verbatim>\<open>range\<close> object has a start, a stop and a step that is never zero. Iterating
  yields \<open>start, start + step, \<dots>\<close> while the value is before \<open>stop\<close> in the
  direction of the step; a range whose step points away from \<open>stop\<close> is empty.
\<close>

record py_range =
  start :: int
  stop :: int
  step :: int

definition range_len :: "py_range \<Rightarrow> nat" where
  "range_len r =
     (if 0 < step r \<and> start r < stop r then nat (1 + (stop r - 1 - start r) div step r)
      else if step r < 0 \<and> stop r < start r
        then nat (1 + (start r - 1 - stop r) div (- step r))
      else 0)"

definition range_list :: "py_range \<Rightarrow> int list" where
  "range_list r = map (\<lambda>k. start r + int k * step r) [0..<range_len r]"

text \<open>
  A two-dimensional array: its shape and its cells. The skeleton mask and the grayscale
  images hold \<^verbatim>\<open>uint8\<close> values, a colour image holds the three channels of a pixel.
\<close>

record 'a ndarray =
  shape0 :: nat
  shape1 :: nat
  px :: "nat \<Rightarrow> nat \<Rightarrow> 'a"

type_synonym gray = "8 word ndarray"
type_synonym image = "(8 word \<times> 8 word \<times> 8 word) ndarray"

text \<open>
  An integer index into an axis of length \<open>n\<close>: a negative index counts from the end,
  an index outside \<open>[-n, n)\<close> raises IndexError.
\<close>

definition np_index :: "nat \<Rightarrow> int \<Rightarrow> error + nat" where
  "np_index n i =
     (if 0 \<le> i \<and> i < int n then Inr (nat i)
      else if - int n \<le> i \<and> i < 0 then Inr (nat (int n + i))
      else Inl IndexError)"

definition row_of :: "'a ndarray \<Rightarrow> nat \<Rightarrow> 'a list" where
  "row_of a i = map (px a i) [0..<shape1 a]"

definition col_of :: "'a ndarray \<Rightarrow> nat \<Rightarrow> 'a list" where
  "col_of a j = map (\<lambda>i. px a i j) [0..<shape0 a]"

definition count_nonzero :: "8 word list \<Rightarrow> nat" where
  "count_nonzero xs = length (filter (\<lambda>v. v \<noteq> 0) xs)"

text \<open>Lines 38 to 41: \<^verbatim>\<open>roi_mask[i, :]\<close> when \<open>axis == 1\<close>, \<^verbatim>\<open>roi_mask[:, i]\<close> otherwise.\<close>

definition continuity_score :: "gray \<Rightarrow> int \<Rightarrow> int \<Rightarrow> error + nat" where
  "continuity_score roi_mask axis i =
     (if axis = 1 then
        (case np_index (shape0 roi_mask) i of Inl e \<Rightarrow> Inl e
         | Inr k \<Rightarrow> Inr (count_nonzero (row_of roi_mask k)))
      else
        (case np_index (shape1 roi_mask) i of Inl e \<Rightarrow> Inl e
         | Inr k \<Rightarrow> Inr (count_nonzero (col_of roi_mask k))))"

text \<open>
  Lines 45 to 49. The quotient of the two integers, the sum and the product are float
  operations, each rounded; the count is an integer, converted exactly.
\<close>

definition line_score :: "nat \<Rightarrow> int \<Rightarrow> int \<Rightarrow> int \<Rightarrow> rat" where
  "line_score continuity i range_start total_span =
     (let progress = \<bar>i - range_start\<bar>;
          position_weight = fl (of_int progress / of_int total_span)
      in fl (of_nat continuity * fl (1 + position_weight)))"

text \<open>The loop of lines 36 to 53; the state is \<open>(best_index, max_score)\<close>.\<close>

fun scan_lines ::
  "gray \<Rightarrow> int \<Rightarrow> int \<Rightarrow> int \<Rightarrow> int list \<Rightarrow> int \<times> rat \<Rightarrow> error + int \<times> rat" where
  "scan_lines roi_mask axis range_start total_span [] st = Inr st"
| "scan_lines roi_mask axis range_start total_span (i # rest) st =
     (case continuity_score roi_mask axis i of
        Inl e \<Rightarrow> Inl e
      | Inr c \<Rightarrow>
          let score = line_score c i range_start total_span
          in scan_lines roi_mask axis range_start total_span rest
               (if snd st \<le> score then (i, score) else st))"

definition find_best_border_line :: "gray \<Rightarrow> int \<Rightarrow> py_range \<Rightarrow> error + int" where
  "find_best_border_line roi_mask axis scan_range =
     (let best_index = start scan_range;
          max_score = - 1;
          total_span = \<bar>stop scan_range - start scan_range\<bar>
      in if total_span = 0 then Inr best_index
         else (case scan_lines roi_mask axis (start scan_range) total_span
                      (range_list scan_range) (best_index, max_score) of
                 Inl e \<Rightarrow> Inl e
               | Inr st \<Rightarrow> Inr (fst st)))"

text \<open>
  Notions used to state the properties of the search: the span of a range, the indices
  valid for an axis, and the count the loop reads at an index.
\<close>

definition total_span_of :: "py_range \<Rightarrow> int" where
  "total_span_of r = \<bar>stop r - start r\<bar>"

definition in_bounds :: "gray \<Rightarrow> int \<Rightarrow> int \<Rightarrow> bool" where
  "in_bounds roi_mask axis i \<longleftrightarrow>
     (let n = int (if axis = 1 then shape0 roi_mask else shape1 roi_mask)
      in - n \<le> i \<and> i < n)"

definition continuity :: "gray \<Rightarrow> int \<Rightarrow> int \<Rightarrow> nat" where
  "continuity roi_mask axis i =
     (case continuity_score roi_mask axis i of Inl e \<Rightarrow> 0 | Inr c \<Rightarrow> c)"

text \<open>
  The count of foreground pixels along the full line at index \<open>i\<close>, orthogonal to the
  scan: over all columns of row \<open>i\<close> when the axis is 1, over all rows of column \<open>i\<close>
  otherwise; a negative index counts from the end. This is the quantity the properties
  speak of, written from the mask alone.
\<close>

definition wrap_index :: "nat \<Rightarrow> int \<Rightarrow> nat" where
  "wrap_index n i = nat (if i < 0 then int n + i else i)"

definition line_foreground :: "gray \<Rightarrow> int \<Rightarrow> int \<Rightarrow> nat" where
  "line_foreground roi_mask axis i =
     (if axis = 1
      then card {j \<in> {0..<shape1 roi_mask}. px roi_mask (wrap_index (shape0 roi_mask) i) j \<noteq> 0}
      else card {k \<in> {0..<shape0 roi_mask}. px roi_mask k (wrap_index (shape1 roi_mask) i) \<noteq> 0})"

text \<open>
  The score \<open>continuity * (1 + |i - start| / span)\<close> of an index: \<open>exact_score\<close> in exact
  arithmetic, \<open>score_at\<close> in double precision, each operation rounded.
\<close>

definition exact_score :: "gray \<Rightarrow> int \<Rightarrow> py_range \<Rightarrow> int \<Rightarrow> rat" where
  "exact_score roi_mask axis r i =
     of_nat (line_foreground roi_mask axis i)
       * (1 + of_int \<bar>i - start r\<bar> / of_int (total_span_of r))"

definition score_at :: "gray \<Rightarrow> int \<Rightarrow> py_range \<Rightarrow> int \<Rightarrow> rat" where
  "score_at roi_mask axis r i =
     fl (of_nat (line_foreground roi_mask axis i)
           * fl (1 + fl (of_int \<bar>i - start r\<bar> / of_int (total_span_of r))))"

definition all_background :: "gray \<Rightarrow> bool" where
  "all_background a \<longleftrightarrow>
     list_all (\<lambda>i. list_all (\<lambda>j. px a i j = 0) [0..<shape1 a]) [0..<shape0 a]"

definition all_foreground :: "gray \<Rightarrow> bool" where
  "all_foreground a \<longleftrightarrow>
     list_all (\<lambda>i. list_all (\<lambda>j. px a i j \<noteq> 0) [0..<shape1 a]) [0..<shape0 a]"

text \<open>
  A scan range in the sense of the specification walks from \<open>start\<close> toward \<open>stop\<close>:
  the sign of the step is the sign of \<open>stop - start\<close>. Both kinds of range that
  \<^verbatim>\<open>remove_border\<close> builds (lines 127 to 130) are of this form.
\<close>

definition walks_to_stop :: "py_range \<Rightarrow> bool" where
  "walks_to_stop r \<longleftrightarrow>
     (start r < stop r \<longrightarrow> 0 < step r) \<and> (stop r < start r \<longrightarrow> step r < 0)"

section \<open>border.py: remove_border\<close>

text \<open>
  The OpenCV routines are collaborators outside the repository; \<^verbatim>\<open>remove_border\<close> is
  modelled over a record of them, each with the arguments the source fixes
  (pad size 15 and a white border value, threshold 240 with \<^verbatim>\<open>THRESH_BINARY_INV\<close>,
  external contours, a 3 by 3 kernel) left implicit. A contour is its list of points.
\<close>

type_synonym contour = "(int \<times> int) list"

record cv2 =
  copyMakeBorder :: "image \<Rightarrow> nat \<Rightarrow> image"
  cvtColor :: "image \<Rightarrow> gray"
  threshold :: "gray \<Rightarrow> gray"
  findContours :: "gray \<Rightarrow> contour list"
  contourArea :: "contour \<Rightarrow> rat"
  boundingRect :: "contour \<Rightarrow> int \<times> int \<times> int \<times> int"
  drawContours :: "gray \<Rightarrow> contour \<Rightarrow> gray"
  erode :: "gray \<Rightarrow> nat \<Rightarrow> gray"
  subtract :: "gray \<Rightarrow> gray \<Rightarrow> gray"
  thinning :: "gray \<Rightarrow> gray"

definition zeros_like :: "'a ndarray \<Rightarrow> gray" where
  "zeros_like a = \<lparr>shape0 = shape0 a, shape1 = shape1 a, px = (\<lambda>i j. 0)\<rparr>"

text \<open>
  A slice \<^verbatim>\<open>a[lo:hi]\<close> of an axis of length \<open>n\<close>: a negative bound counts from the end,
  both bounds are clamped to \<open>[0, n]\<close>, and the slice is empty when \<open>hi \<le> lo\<close>.
\<close>

definition slice_bound :: "nat \<Rightarrow> int \<Rightarrow> nat" where
  "slice_bound n b = nat (if b < 0 then max 0 (b + int n) else min b (int n))"

definition np_slice :: "'a ndarray \<Rightarrow> int \<Rightarrow> int \<Rightarrow> int \<Rightarrow> int \<Rightarrow> 'a ndarray" where
  "np_slice a r_lo r_hi c_lo c_hi =
     (let rl = slice_bound (shape0 a) r_lo; rh = slice_bound (shape0 a) r_hi;
          cl = slice_bound (shape1 a) c_lo; ch = slice_bound (shape1 a) c_hi
      in \<lparr>shape0 = rh - rl, shape1 = ch - cl, px = (\<lambda>i j. px a (rl + i) (cl + j))\<rparr>)"

text \<open>\<^verbatim>\<open>int(q)\<close> of a float truncates toward zero.\<close>

definition py_int :: "rat \<Rightarrow> int" where
  "py_int q = (if 0 \<le> q then \<lfloor>q\<rfloor> else \<lceil>q\<rceil>)"

text \<open>Lines 80 to 93: the padded image and the contours found in it.\<close>

definition padded_of :: "cv2 \<Rightarrow> image \<Rightarrow> image" where
  "padded_of cv panel_image = (let pad_size = 15 in copyMakeBorder cv panel_image pad_size)"

definition contours_of :: "cv2 \<Rightarrow> image \<Rightarrow> contour list" where
  "contours_of cv panel_image =
     (let gray = cvtColor cv (padded_of cv panel_image);
          thresh = threshold cv gray
      in findContours cv thresh)"

text \<open>
  Lines 99 to 148, run when a contour was found: the skeleton mask, the four searches
  and the crop coordinates \<open>(final_x1, final_y1, final_x2, final_y2)\<close>.
  \<open>search_zone_ratio\<close> is the value of the float passed; the products of lines 121 and
  123 are float products, rounded before \<^verbatim>\<open>int\<close> truncates them.
\<close>

definition crop_coordinates ::
  "cv2 \<Rightarrow> image \<Rightarrow> rat \<Rightarrow> int \<Rightarrow> error + int \<times> int \<times> int \<times> int" where
  "crop_coordinates cv panel_image search_zone_ratio padding =
     (let gray = cvtColor cv (padded_of cv panel_image);
          largest_contour = py_max (contourArea cv) (contours_of cv panel_image);
          (x, y, w, h) = boundingRect cv largest_contour;
          filled_mask = drawContours cv (zeros_like gray) largest_contour;
          erosion_iterations = 5;
          hollow_contour = subtract cv filled_mask (erode cv filled_mask erosion_iterations);
          skeleton = thinning cv hollow_contour;
          roi_mask = np_slice skeleton y (y + h) x (x + w);
          top_search_end = py_int (fl (of_int h * search_zone_ratio));
          bottom_search_start = h - top_search_end;
          left_search_end = py_int (fl (of_int w * search_zone_ratio));
          right_search_start = w - left_search_end;
          top_range = \<lparr>start = top_search_end, stop = - 1, step = - 1\<rparr>;
          bottom_range = \<lparr>start = bottom_search_start, stop = h, step = 1\<rparr>;
          left_range = \<lparr>start = left_search_end, stop = - 1, step = - 1\<rparr>;
          right_range = \<lparr>start = right_search_start, stop = w, step = 1\<rparr>
      in case find_best_border_line roi_mask 1 top_range of Inl e \<Rightarrow> Inl e
         | Inr best_top_y \<Rightarrow>
        (case find_best_border_line roi_mask 1 bottom_range of Inl e \<Rightarrow> Inl e
         | Inr best_bottom_y \<Rightarrow>
        (case find_best_border_line roi_mask 0 left_range of Inl e \<Rightarrow> Inl e
         | Inr best_left_x \<Rightarrow>
        (case find_best_border_line roi_mask 0 right_range of Inl e \<Rightarrow> Inl e
         | Inr best_right_x \<Rightarrow>
             Inr (x + best_left_x + padding, y + best_top_y + padding,
                  x + best_right_x - padding, y + best_bottom_y - padding)))))"

text \<open>Line 155.\<close>

definition cropped_of :: "cv2 \<Rightarrow> image \<Rightarrow> int \<times> int \<times> int \<times> int \<Rightarrow> image" where
  "cropped_of cv panel_image box =
     (case box of (final_x1, final_y1, final_x2, final_y2) \<Rightarrow>
        np_slice (padded_of cv panel_image) final_y1 final_y2 final_x1 final_x2)"

text \<open>An absent image is \<open>None\<close>; every return hands back an image or the input itself.\<close>

definition remove_border :: "cv2 \<Rightarrow> image option \<Rightarrow> rat \<Rightarrow> int \<Rightarrow> error + image option" where
  "remove_border cv panel_image search_zone_ratio padding =
     (case panel_image of
        None \<Rightarrow> Inr panel_image
      | Some img \<Rightarrow>
          if shape0 img < 30 \<or> shape1 img < 30 then Inr panel_image
          else if contours_of cv img = [] then Inr panel_image
          else (case crop_coordinates cv img search_zone_ratio padding of
                  Inl e \<Rightarrow> Inl e
                | Inr (final_x1, final_y1, final_x2, final_y2) \<Rightarrow>
                    if final_x2 \<le> final_x1 \<or> final_y2 \<le> final_y1 then Inr panel_image
                    else
                      let cropped = cropped_of cv img (final_x1, final_y1, final_x2, final_y2)
                      in if shape0 cropped < 10 \<or> shape1 cropped < 10 then Inr panel_image
                         else Inr (Some cropped)))"

section \<open>Sample inputs\<close>

text \<open>Concrete panels, masks and collaborators on which the properties below are instantiated.\<close>

definition top_left :: item where "top_left = (0, (0, 0, 40, 40))"
definition top_right :: item where "top_right = (1, (60, 0, 40, 40))"
definition bottom_left :: item where "bottom_left = (2, (0, 60, 40, 40))"
definition bottom_right :: item where "bottom_right = (3, (60, 60, 40, 40))"
definition banner :: item where "banner = (4, (0, 0, 100, 20))"
definition footer :: item where "footer = (5, (0, 120, 100, 20))"

text \<open>\<^verbatim>\<open>range(a, b)\<close> and \<^verbatim>\<open>range(a, b, -1)\<close>, and three small masks.\<close>

definition zero_mask :: "nat \<Rightarrow> nat \<Rightarrow> gray" where
  "zero_mask h w = \<lparr>shape0 = h, shape1 = w, px = (\<lambda>i j. 0)\<rparr>"

definition full_mask :: "nat \<Rightarrow> nat \<Rightarrow> gray" where
  "full_mask h w = \<lparr>shape0 = h, shape1 = w, px = (\<lambda>i j. 255)\<rparr>"

definition tie_mask :: gray where
  "tie_mask = \<lparr>shape0 = 4, shape1 = 3,
     px = (\<lambda>i j. if i = 0 then 255 else if i = 2 \<and> j < 2 then 255 else 0)\<rparr>"

definition nine_mask :: gray where
  "nine_mask = \<lparr>shape0 = 9, shape1 = 3,
     px = (\<lambda>i j. if i = 1 then 255 else if i = 6 \<and> j < 2 then 255 else 0)\<rparr>"

definition column_mask :: gray where
  "column_mask = \<lparr>shape0 = 3, shape1 = 4,
     px = (\<lambda>i j. if j = 2 then 255 else if j = 0 \<and> i = 0 then 255 else 0)\<rparr>"

definition range_up :: "int \<Rightarrow> int \<Rightarrow> py_range" where
  "range_up a b = \<lparr>start = a, stop = b, step = 1\<rparr>"

definition range_down :: "int \<Rightarrow> int \<Rightarrow> py_range" where
  "range_down a b = \<lparr>start = a, stop = b, step = - 1\<rparr>"

definition blank_image :: "nat \<Rightarrow> nat \<Rightarrow> image" where
  "blank_image h w = \<lparr>shape0 = h, shape1 = w, px = (\<lambda>i j. (0, 0, 0))\<rparr>"

definition sample_cv2 :: "contour list \<Rightarrow> cv2" where
  "sample_cv2 cs =
     \<lparr>copyMakeBorder = (\<lambda>img p. \<lparr>shape0 = shape0 img + 2 * p, shape1 = shape1 img + 2 * p,
          px = (\<lambda>i j. if p \<le> i \<and> i < p + shape0 img \<and> p \<le> j \<and> j < p + shape1 img
                 then px img (i - p) (j - p) else (255, 255, 255))\<rparr>),
      cvtColor = (\<lambda>img. \<lparr>shape0 = shape0 img, shape1 = shape1 img,
          px = (\<lambda>i j. fst (px img i j))\<rparr>),
      threshold = (\<lambda>g. \<lparr>shape0 = shape0 g, shape1 = shape1 g,
          px = (\<lambda>i j. if 240 < px g i j then 0 else 255)\<rparr>),
      findContours = (\<lambda>g. cs),
      contourArea = (\<lambda>c. of_nat (length c)),
      boundingRect = (\<lambda>c. (15, 15, 30, 30)),
      drawContours = (\<lambda>g c. g),
      erode = (\<lambda>g n. g),
      subtract = (\<lambda>a b. a),
      thinning = (\<lambda>g. g)\<rparr>"

definition square_contour :: contour where
  "square_contour = [(15, 15), (15, 44), (44, 44), (44, 15)]"

section \<open>Properties of the rounding\<close>

lemma round_half_even_floor: "\<lfloor>q\<rfloor> \<le> round_half_even q \<and> round_half_even q \<le> \<lfloor>q\<rfloor> + 1"
  by (simp add: round_half_even_def Let_def)

lemma round_half_even_ge: "of_int n \<le> q \<Longrightarrow> n \<le> round_half_even q"
proof -
  assume "of_int n \<le> q"
  then have "n \<le> \<lfloor>q\<rfloor>" by (simp add: le_floor_iff)
  with round_half_even_floor [of q] show ?thesis by simp
qed

lemma round_half_even_le: "q \<le> of_int n \<Longrightarrow> round_half_even q \<le> n"
proof (cases "q = of_int n")
  case True
  then show ?thesis by (simp add: round_half_even_def)
next
  case False
  assume "q \<le> of_int n"
  with False have "q < of_int n" by simp
  then have "\<lfloor>q\<rfloor> < n" by (simp add: floor_less_iff)
  with round_half_even_floor [of q] show ?thesis by simp
qed

lemma round_half_even_mono: "a \<le> b \<Longrightarrow> round_half_even a \<le> round_half_even b"
proof -
  assume ab: "a \<le> b"
  then have fl: "\<lfloor>a\<rfloor> \<le> \<lfloor>b\<rfloor>" by (rule floor_mono)
  show ?thesis
  proof (cases "\<lfloor>a\<rfloor> = \<lfloor>b\<rfloor>")
    case True
    with ab show ?thesis by (auto simp: round_half_even_def Let_def)
  next
    case False
    with fl have "\<lfloor>a\<rfloor> + 1 \<le> \<lfloor>b\<rfloor>" by simp
    with round_half_even_floor [of a] round_half_even_floor [of b] show ?thesis by simp
  qed
qed

lemma float_exponent_bounds:
  assumes "0 < q"
  shows "2 powi float_exponent q \<le> q \<and> q < 2 powi (float_exponent q + 1)"
proof -
  obtain a b where ab: "quotient_of q = (a, b)" by (cases "quotient_of q")
  then have b: "0 < b" by (rule quotient_of_denom_pos)
  from ab have q: "q = of_int a / of_int b" by (rule quotient_of_div)
  with assms b have a: "0 < a" by (simp add: zero_less_divide_iff)
  have la: "1 \<le> bitlen a" and lb: "1 \<le> bitlen b"
    using a b by (simp_all add: bitlen_alt_def)
  have pa: "(2::rat) powi (bitlen a - 1) \<le> of_int a \<and> of_int a < (2::rat) powi bitlen a"
  proof -
    from bitlen_bounds [OF a]
    have "(of_int (2 ^ nat (bitlen a - 1)) :: rat) \<le> of_int a"
      and "(of_int a :: rat) < of_int (2 ^ nat (bitlen a))"
      by (simp_all only: of_int_le_iff of_int_less_iff)
    with la show ?thesis by (simp add: power_int_def)
  qed
  have pb: "(2::rat) powi (bitlen b - 1) \<le> of_int b \<and> of_int b < (2::rat) powi bitlen b"
  proof -
    from bitlen_bounds [OF b]
    have "(of_int (2 ^ nat (bitlen b - 1)) :: rat) \<le> of_int b"
      and "(of_int b :: rat) < of_int (2 ^ nat (bitlen b))"
      by (simp_all only: of_int_le_iff of_int_less_iff)
    with lb show ?thesis by (simp add: power_int_def)
  qed
  have bpos: "(0::rat) < of_int b" and apos: "(0::rat) < of_int a" using a b by simp_all
  have up: "q < 2 powi (bitlen a - bitlen b + 1)"
  proof -
    have "q < 2 powi bitlen a / of_int b"
      unfolding q using pa bpos by (simp add: divide_strict_right_mono)
    also have "\<dots> \<le> 2 powi bitlen a / 2 powi (bitlen b - 1)"
      using pb b by (intro divide_left_mono mult_pos_pos) simp_all
    also have "\<dots> = 2 powi (bitlen a - (bitlen b - 1))"
      by (simp add: power_int_diff)
    finally show ?thesis by (simp add: algebra_simps)
  qed
  have lo: "2 powi (bitlen a - bitlen b - 1) \<le> q"
  proof -
    have "2 powi (bitlen a - bitlen b - 1) = (2::rat) powi (bitlen a - 1) / 2 powi bitlen b"
      by (simp add: power_int_diff [symmetric] algebra_simps)
    also have "\<dots> \<le> of_int a / 2 powi bitlen b"
      using pa by (intro divide_right_mono) simp_all
    also have "\<dots> \<le> of_int a / of_int b"
      using pb a b by (intro divide_left_mono mult_pos_pos) simp_all
    finally show ?thesis by (simp add: q)
  qed
  show ?thesis
  proof (cases "q < 2 powi (bitlen a - bitlen b)")
    case True
    with lo show ?thesis by (simp add: float_exponent_def ab Let_def)
  next
    case False
    with up show ?thesis by (simp add: float_exponent_def ab Let_def not_less)
  qed
qed

lemma fl_pos_bounds:
  assumes "0 < q"
  shows "2 powi float_exponent q \<le> fl q \<and> fl q \<le> 2 powi (float_exponent q + 1)"
proof -
  let ?e = "float_exponent q"
  let ?u = "(2::rat) powi (?e - 52)"
  have u: "0 < ?u" by simp
  from assms have flq: "fl q = of_int (round_half_even (q / ?u)) * ?u"
    by (simp add: fl_def Let_def)
  from float_exponent_bounds [OF assms]
  have lo: "2 powi ?e \<le> q" and hi: "q < 2 powi (?e + 1)" by simp_all
  have e1: "(2::rat) powi ?e = of_int (2 ^ 52) * ?u"
    by (simp add: power_int_diff)
  have e2: "(2::rat) powi (?e + 1) = of_int (2 ^ 53) * ?u"
    by (simp add: power_int_diff power_int_add)
  from lo have "of_int (2 ^ 52) \<le> q / ?u"
    unfolding e1 using u by (simp add: pos_le_divide_eq)
  then have a: "2 ^ 52 \<le> round_half_even (q / ?u)" by (rule round_half_even_ge)
  from hi have "q / ?u \<le> of_int (2 ^ 53)"
    unfolding e2 using u by (simp add: pos_divide_le_eq less_imp_le)
  then have b: "round_half_even (q / ?u) \<le> 2 ^ 53" by (rule round_half_even_le)
  from a have "(of_int (2 ^ 52) :: rat) \<le> of_int (round_half_even (q / ?u))"
    by (simp only: of_int_le_iff)
  then have A: "2 powi ?e \<le> fl q"
    unfolding e1 flq using u by (intro mult_right_mono) simp_all
  from b have "(of_int (round_half_even (q / ?u)) :: rat) \<le> of_int (2 ^ 53)"
    by (simp only: of_int_le_iff)
  then have B: "fl q \<le> 2 powi (?e + 1)"
    unfolding e2 flq using u by (intro mult_right_mono) simp_all
  from A B show ?thesis ..
qed

lemma fl_nonneg: "0 \<le> q \<Longrightarrow> 0 \<le> fl q"
proof (cases "q = 0")
  case True
  then show ?thesis by (simp add: fl_def)
next
  case False
  assume "0 \<le> q"
  with False have "0 < q" by simp
  from fl_pos_bounds [OF this] have "(2::rat) powi float_exponent q \<le> fl q" ..
  moreover have "(0::rat) < 2 powi float_exponent q" by simp
  ultimately show ?thesis by linarith
qed

lemma fl_mono_pos:
  assumes "0 < a" and "a \<le> b"
  shows "fl a \<le> fl b"
proof -
  from assms have b: "0 < b" by simp
  let ?ea = "float_exponent a" and ?eb = "float_exponent b"
  from float_exponent_bounds [OF assms(1)] float_exponent_bounds [OF b] assms(2)
  have "(2::rat) powi ?ea < 2 powi (?eb + 1)" by linarith
  then have le: "?ea \<le> ?eb"
    by (metis not_less power_int_increasing one_le_numeral zle_add1_eq_le)
  show ?thesis
  proof (cases "?ea = ?eb")
    case True
    let ?u = "(2::rat) powi (?ea - 52)"
    have u: "0 < ?u" by simp
    from assms(2) u have "a / ?u \<le> b / ?u" by (simp add: divide_right_mono)
    then have "round_half_even (a / ?u) \<le> round_half_even (b / ?u)"
      by (rule round_half_even_mono)
    then have "(of_int (round_half_even (a / ?u)) :: rat) * ?u
        \<le> of_int (round_half_even (b / ?u)) * ?u"
      using u by (intro mult_right_mono) simp_all
    with assms(1) b True show ?thesis by (simp add: fl_def Let_def)
  next
    case False
    with le have "?ea + 1 \<le> ?eb" by simp
    then have "(2::rat) powi (?ea + 1) \<le> 2 powi ?eb"
      by (intro power_int_increasing) simp_all
    with fl_pos_bounds [OF assms(1)] fl_pos_bounds [OF b] show ?thesis by linarith
  qed
qed

lemma fl_mono: "0 \<le> a \<Longrightarrow> a \<le> b \<Longrightarrow> fl a \<le> fl b"
proof (cases "a = 0")
  case True
  assume "a \<le> b"
  with True have "0 \<le> b" by simp
  from fl_nonneg [OF this] True show ?thesis by (simp add: fl_def)
next
  case False
  assume "0 \<le> a" "a \<le> b"
  with False show ?thesis by (intro fl_mono_pos) simp_all
qed

section \<open>Properties of sort_panels_by_column_then_row\<close>

lemmas sample_panels =
  top_left_def top_right_def bottom_left_def bottom_right_def banner_def footer_def

lemma gather_foldl:
  "foldl gather_step (data, m) items =
     (data @ map mk_datum items, foldl max m (map right_edge items))"
  by (induction items arbitrary: data m)
     (auto simp: gather_step_def right_edge_def split: prod.splits)

lemma foldl_max_Max: "foldl max (m::int) xs = Max (insert m (set xs))"
proof -
  have "foldl max m xs = fold max xs m"
    by (simp add: foldl_conv_fold max.commute)
  also have "\<dots> = Max (set (m # xs))"
    by (simp only: Max.set_eq_fold)
  finally show ?thesis by simp
qed

lemma gather_data: "fst (gather items) = map mk_datum items"
  by (simp add: gather_def gather_foldl)

lemma gather_max_x2: "snd (gather items) = Max (insert 0 (right_edge ` set items))"
  by (simp add: gather_def gather_foldl foldl_max_Max)

lemma d5_mk_datum: "d5 (mk_datum it) = width it"
  by (simp add: mk_datum_def width_def split: prod.splits)

lemma py_in_spanning:
  "d \<in> set data \<Longrightarrow> py_in d (spanning_of data fw) \<longleftrightarrow> is_spanning fw d"
  by (auto simp: py_in_def spanning_of_def list_ex_iff datum_eq_def is_spanning_def)

lemma remaining_of_spanning:
  "remaining_of data (spanning_of data fw) = filter (\<lambda>d. \<not> is_spanning fw d) data"
  unfolding remaining_of_def by (rule filter_cong) (simp_all add: py_in_spanning)

lemma classify_mset:
  "classify data fw = (remaining, spanning) \<Longrightarrow> mset remaining + mset spanning = mset data"
proof -
  assume c: "classify data fw = (remaining, spanning)"
  have part: "mset (remaining_of data (spanning_of data fw)) + mset (spanning_of data fw)
      = mset data"
    using multiset_partition [of "mset data" "is_spanning fw"]
    by (subst remaining_of_spanning) (simp add: spanning_of_def add.commute)
  show ?thesis
  proof (cases "length (remaining_of data (spanning_of data fw)) < 2")
    case True
    with c show ?thesis by (simp add: classify_def Let_def)
  next
    case False
    with c part show ?thesis by (auto simp: classify_def Let_def)
  qed
qed

lemma classify_length:
  "classify data fw = (remaining, spanning) \<Longrightarrow> 2 \<le> length data \<Longrightarrow> 2 \<le> length remaining"
  by (auto simp: classify_def Let_def split: if_splits)

lemma max_from_mem: "max_from key best xs \<in> insert best (set xs)"
  by (induction xs arbitrary: best) (auto split: if_splits)

lemma py_max_mem: "xs \<noteq> [] \<Longrightarrow> py_max key xs \<in> set xs"
  using max_from_mem [of key "hd xs" "tl xs"] by (cases xs) (auto simp: py_max_def)

lemma split_idx_bound: "2 \<le> length xs \<Longrightarrow> split_idx_of xs + 1 < length xs"
proof -
  assume len: "2 \<le> length xs"
  then have ne: "gaps_of xs \<noteq> []" by (simp add: gaps_of_def)
  from py_max_mem [OF ne, of fst] have "snd (py_max fst (gaps_of xs)) < length xs - 1"
    by (auto simp: gaps_of_def)
  with ne show ?thesis by (simp add: split_idx_of_def)
qed

lemma split_x_of_ok:
  "2 \<le> length xs \<Longrightarrow>
   split_x_of xs = Inr ((xs ! split_idx_of xs + xs ! (split_idx_of xs + 1)) / 2)"
  using split_idx_bound [of xs] by (simp add: split_x_of_def py_get_def Let_def)

lemma split_x_of_short: "length xs < 2 \<Longrightarrow> split_x_of xs = Inl IndexError"
  by (cases xs) (auto simp: split_x_of_def split_idx_of_def gaps_of_def py_get_def Let_def)

lemma mset_merge_by_y_top:
  "mset (merge_by_y_top ns ss) = mset (map d0 ns) + mset (map d0 ss)"
  by (induction ns ss rule: merge_by_y_top.induct) auto

lemma merge_by_y_top_Nil: "merge_by_y_top ns [] = map d0 ns"
  by (cases ns) auto

lemma non_spanning_of_two: "non_spanning_of [a, b] = sort_key d2 a @ sort_key d2 b"
  by (simp add: non_spanning_of_def)

lemma mset_columns:
  "mset (non_spanning_of (columns_of remaining split_x rtl_order)) = mset remaining"
proof -
  have "{#d \<in># mset remaining. d1 d < split_x#} + {#d \<in># mset remaining. split_x \<le> d1 d#}
      = mset remaining"
    using multiset_partition [of "mset remaining" "\<lambda>d. d1 d < split_x"]
    by (simp add: not_less)
  then show ?thesis
    by (auto simp: columns_of_def non_spanning_of_two left_group_def right_group_def
        add.commute)
qed

lemma d0_mk_datum: "d0 (mk_datum it) = it"
  by (simp add: mk_datum_def split: prod.splits)

lemma map_d0_mk_datum: "map d0 (map mk_datum items) = items"
  by (simp add: d0_mk_datum o_def)

lemma partition_panels_classify:
  "partition_panels items = (remaining, spanning) \<Longrightarrow>
   \<exists>rem0. classify (map mk_datum items) (snd (gather items)) = (rem0, spanning)
      \<and> remaining = sort_key d1 rem0"
  using gather_data [of items]
  by (auto simp: partition_panels_def Let_def split: prod.splits)

lemma partition_panels_mset:
  assumes "partition_panels items = (remaining, spanning)"
  shows "mset remaining + mset spanning = mset (map mk_datum items)"
proof -
  from partition_panels_classify [OF assms] obtain rem0
    where c: "classify (map mk_datum items) (snd (gather items)) = (rem0, spanning)"
      and r: "remaining = sort_key d1 rem0" by blast
  from classify_mset [OF c] r show ?thesis by simp
qed

lemma partition_panels_length:
  assumes "partition_panels items = (remaining, spanning)" and "2 \<le> length items"
  shows "2 \<le> length remaining"
proof -
  from partition_panels_classify [OF assms(1)] obtain rem0
    where c: "classify (map mk_datum items) (snd (gather items)) = (rem0, spanning)"
      and r: "remaining = sort_key d1 rem0" by blast
  from classify_length [OF c] assms(2) r show ?thesis by simp
qed

lemma classify_short: "length data < 2 \<Longrightarrow> classify data fw = (data, [])"
proof -
  assume "length data < 2"
  moreover have "length (remaining_of data (spanning_of data fw)) \<le> length data"
    by (simp add: remaining_of_def)
  ultimately show ?thesis by (simp add: classify_def Let_def)
qed

lemma partition_panels_single: "partition_panels [it] = ([mk_datum it], [])"
  by (simp add: partition_panels_def gather_def gather_step_def classify_short
      split: prod.splits)

lemma sort_panels_single: "sort_panels_by_column_then_row [it] rtl_order = Inl IndexError"
  by (simp add: sort_panels_by_column_then_row_def partition_panels_single split_x_of_short)

lemma sort_panels_unfold:
  assumes "items \<noteq> []" and "partition_panels items = (remaining, spanning)"
  shows "sort_panels_by_column_then_row items rtl_order =
     (case split_x_of (map d1 remaining) of Inl e \<Rightarrow> Inl e
      | Inr split_x \<Rightarrow> Inr (merge_by_y_top
          (non_spanning_of (columns_of remaining split_x rtl_order)) (sort_key d2 spanning)))"
  using assms by (simp add: sort_panels_by_column_then_row_def Let_def split: sum.splits)

lemma sort_panels_empty: "sort_panels_by_column_then_row [] rtl_order = Inr []"
  by (simp add: sort_panels_by_column_then_row_def)

lemma sort_panels_returns:
  assumes "2 \<le> length items"
  shows "\<exists>out. sort_panels_by_column_then_row items rtl_order = Inr out"
proof -
  obtain remaining spanning where p: "partition_panels items = (remaining, spanning)"
    by (cases "partition_panels items")
  from assms have ne: "items \<noteq> []" by auto
  from partition_panels_length [OF p assms] have "2 \<le> length (map d1 remaining)" by simp
  from split_x_of_ok [OF this] show ?thesis
    by (simp add: sort_panels_unfold [OF ne p])
qed

lemma sort_panels_mset:
  assumes "sort_panels_by_column_then_row items rtl_order = Inr out"
  shows "mset out = mset items"
proof (cases "items = []")
  case True
  with assms show ?thesis by (simp add: sort_panels_by_column_then_row_def)
next
  case False
  obtain remaining spanning where p: "partition_panels items = (remaining, spanning)"
    by (cases "partition_panels items")
  from assms obtain split_x where
    out: "out = merge_by_y_top (non_spanning_of (columns_of remaining split_x rtl_order))
       (sort_key d2 spanning)"
    by (auto simp: sort_panels_unfold [OF False p] split: sum.splits)
  have "mset out = image_mset d0 (mset remaining + mset spanning)"
    by (simp add: out mset_merge_by_y_top mset_columns)
  also have "\<dots> = mset (map d0 (map mk_datum items))"
    by (simp only: partition_panels_mset [OF p] mset_map)
  finally show ?thesis by (simp only: map_d0_mk_datum)
qed

lemma d1_mk_datum: "d1 (mk_datum it) = x_center it"
  by (simp add: mk_datum_def x_center_def split: prod.splits)

lemma d2_mk_datum: "d2 (mk_datum it) = y_top it"
  by (simp add: mk_datum_def y_top_def split: prod.splits)

lemma insort_key_map:
  "insort_key f (g x) (map g xs) = map g (insort_key (\<lambda>y. f (g y)) x xs)"
  by (induction xs) simp_all

lemma sort_key_map: "sort_key f (map g xs) = map g (sort_key (\<lambda>y. f (g y)) xs)"
  by (induction xs) (simp_all add: insort_key_map)

lemma sort_key_mk_datum_x: "sort_key d1 (map mk_datum xs) = map mk_datum (sort_key x_center xs)"
  by (simp add: sort_key_map d1_mk_datum)

lemma sort_key_mk_datum_y: "sort_key d2 (map mk_datum xs) = map mk_datum (sort_key y_top xs)"
  by (simp add: sort_key_map d2_mk_datum)

lemma left_group_mk_datum:
  "left_group (map mk_datum xs) s = map mk_datum (filter (\<lambda>it. x_center it < s) xs)"
  by (simp add: left_group_def filter_map o_def d1_mk_datum)

lemma right_group_mk_datum:
  "right_group (map mk_datum xs) s = map mk_datum (filter (\<lambda>it. s \<le> x_center it) xs)"
  by (simp add: right_group_def filter_map o_def d1_mk_datum)

lemma partition_panels_no_spanning:
  assumes "snd (partition_panels items) = []"
  shows "partition_panels items = (map mk_datum (sort_key x_center items), [])"
proof -
  obtain remaining spanning where p: "partition_panels items = (remaining, spanning)"
    by (cases "partition_panels items")
  with assms have sp: "spanning = []" by simp
  from partition_panels_classify [OF p] obtain rem0
    where c: "classify (map mk_datum items) (snd (gather items)) = (rem0, spanning)"
      and r: "remaining = sort_key d1 rem0" by blast
  have "rem0 = map mk_datum items"
  proof (cases "length (remaining_of (map mk_datum items)
      (spanning_of (map mk_datum items) (snd (gather items)))) < 2")
    case True
    with c show ?thesis by (simp add: classify_def Let_def)
  next
    case False
    with c sp have "spanning_of (map mk_datum items) (snd (gather items)) = []"
      and "rem0 = remaining_of (map mk_datum items)
        (spanning_of (map mk_datum items) (snd (gather items)))"
      by (auto simp: classify_def Let_def)
    then show ?thesis by (simp add: remaining_of_def py_in_def)
  qed
  with p r sp show ?thesis by (simp add: sort_key_mk_datum_x)
qed

lemma sort_panels_no_spanning:
  assumes "2 \<le> length items" and "snd (partition_panels items) = []"
  shows "\<exists>split_x.
      split_x_of (map x_center (sort_key x_center items)) = Inr split_x
    \<and> sort_panels_by_column_then_row items rtl_order
        = Inr (if rtl_order
            then sort_key y_top (filter (\<lambda>it. split_x \<le> x_center it) (sort_key x_center items))
               @ sort_key y_top (filter (\<lambda>it. x_center it < split_x) (sort_key x_center items))
            else sort_key y_top (filter (\<lambda>it. x_center it < split_x) (sort_key x_center items))
               @ sort_key y_top (filter (\<lambda>it. split_x \<le> x_center it) (sort_key x_center items)))"
proof -
  let ?S = "sort_key x_center items"
  from assms(1) have ne: "items \<noteq> []" by auto
  note p = partition_panels_no_spanning [OF assms(2)]
  have xs: "map d1 (map mk_datum ?S) = map x_center ?S"
    by (simp add: d1_mk_datum)
  from assms(1) have "2 \<le> length (map x_center ?S)" by simp
  from split_x_of_ok [OF this] obtain split_x
    where sx: "split_x_of (map x_center ?S) = Inr split_x" by blast
  have "sort_panels_by_column_then_row items rtl_order
      = Inr (merge_by_y_top (non_spanning_of (columns_of (map mk_datum ?S) split_x rtl_order))
          (sort_key d2 []))"
    by (simp only: sort_panels_unfold [OF ne p] xs sx sum.case)
  also have "\<dots> = Inr (if rtl_order
            then sort_key y_top (filter (\<lambda>it. split_x \<le> x_center it) ?S)
               @ sort_key y_top (filter (\<lambda>it. x_center it < split_x) ?S)
            else sort_key y_top (filter (\<lambda>it. x_center it < split_x) ?S)
               @ sort_key y_top (filter (\<lambda>it. split_x \<le> x_center it) ?S))"
    by (simp add: columns_of_def non_spanning_of_two merge_by_y_top_Nil left_group_mk_datum
        right_group_mk_datum sort_key_mk_datum_y o_def d0_mk_datum)
  finally show ?thesis using sx by blast
qed

lemma mset_two_cases: "mset L = {#p, q#} \<Longrightarrow> L = [p, q] \<or> L = [q, p]"
proof -
  assume m: "mset L = {#p, q#}"
  then have "size (mset L) = 2" by simp
  then have "length L = 2" by simp
  then obtain u v where L: "L = [u, v]"
    by (cases L; cases "tl L") auto
  with m show ?thesis by (auto simp: add_eq_conv_ex)
qed

lemma sort_key_two: "mset L = {#p, q#} \<Longrightarrow> f p < f q \<Longrightarrow> sort_key f L = [p, q]"
  using mset_two_cases [of L p q] by auto

lemma partition_panels_none_spanning:
  assumes "\<forall>it\<in>set items. \<not> is_spanning (snd (gather items)) (mk_datum it)"
  shows "snd (partition_panels items) = []"
proof -
  from assms have "spanning_of (map mk_datum items) (snd (gather items)) = []"
    by (simp add: spanning_of_def filter_empty_conv)
  then have "snd (classify (map mk_datum items) (snd (gather items))) = []"
    by (simp add: classify_def Let_def)
  then show ?thesis
    using gather_data [of items]
    by (auto simp: partition_panels_def Let_def split: prod.splits)
qed

lemma quadrants_any_order:
  fixes xl xr yt yb w h :: int
  assumes m: "mset items
      = {#(a, (xl, yt, w, h)), (b, (xr, yt, w, h)), (c, (xl, yb, w, h)), (d, (xr, yb, w, h))#}"
    and x: "xl < xr" and y: "yt < yb" and w: "0 < w" and ns: "10 * w < 6 * (xr + w)"
  shows "sort_panels_by_column_then_row items rtl_order
    = Inr (if rtl_order
        then [(b, (xr, yt, w, h)), (d, (xr, yb, w, h)), (a, (xl, yt, w, h)), (c, (xl, yb, w, h))]
        else [(a, (xl, yt, w, h)), (c, (xl, yb, w, h)), (b, (xr, yt, w, h)), (d, (xr, yb, w, h))])"
proof -
  define TL where "TL = (a, (xl, yt, w, h))"
  define TR where "TR = (b, (xr, yt, w, h))"
  define BL where "BL = (c, (xl, yb, w, h))"
  define BR where "BR = (d, (xr, yb, w, h))"
  define cl :: rat where "cl = of_int xl + of_int w / 2"
  define cr :: rat where "cr = of_int xr + of_int w / 2"
  note names = TL_def TR_def BL_def BR_def
  from m have ms: "mset items = {#TL, TR, BL, BR#}" by (simp add: names)
  then have st: "set items = {TL, TR, BL, BR}" by (metis set_mset_mset set_mset_add_mset_insert
      set_mset_empty)
  from ms have "size (mset items) = 4" by simp
  then have len: "2 \<le> length items" by simp
  have xc: "x_center TL = cl" "x_center BL = cl" "x_center TR = cr" "x_center BR = cr"
    by (simp_all add: names x_center_def cl_def cr_def)
  have yt': "y_top TL = yt" "y_top TR = yt" "y_top BL = yb" "y_top BR = yb"
    by (simp_all add: names y_top_def)
  from x have lr: "cl < cr" by (simp add: cl_def cr_def)
  have fw: "snd (gather items) = max 0 (xr + w)"
    using x by (simp add: gather_max_x2 st right_edge_def names max_def)
  have nsp: "\<forall>it\<in>set items. \<not> is_spanning (snd (gather items)) (mk_datum it)"
  proof -
    from ns have "rat_of_int (10 * w) < rat_of_int (6 * (xr + w))"
      by (simp only: of_int_less_iff)
    then show ?thesis using w
      by (auto simp: fw st is_spanning_def d5_mk_datum width_def names max_def)
  qed
  let ?S = "sort_key x_center items"
  from sort_panels_no_spanning [OF len partition_panels_none_spanning [OF nsp], of rtl_order]
  obtain split_x where sx: "split_x_of (map x_center ?S) = Inr split_x"
    and out: "sort_panels_by_column_then_row items rtl_order
        = Inr (if rtl_order
            then sort_key y_top (filter (\<lambda>it. split_x \<le> x_center it) ?S)
               @ sort_key y_top (filter (\<lambda>it. x_center it < split_x) ?S)
            else sort_key y_top (filter (\<lambda>it. x_center it < split_x) ?S)
               @ sort_key y_top (filter (\<lambda>it. split_x \<le> x_center it) ?S))"
    by blast
  have "mset (map x_center ?S) = mset [cl, cl, cr, cr]"
    by (simp add: ms xc)
  moreover have "sorted (map x_center ?S)" by simp
  ultimately have "sort [cl, cl, cr, cr] = map x_center ?S"
    by (rule properties_for_sort)
  moreover have "sort [cl, cl, cr, cr] = [cl, cl, cr, cr]" using lr by simp
  ultimately have cs: "map x_center ?S = [cl, cl, cr, cr]" by simp
  have "split_x_of [cl, cl, cr, cr] = Inr ((cl + cr) / 2)"
    using lr
    by (simp add: split_x_of_def split_idx_of_def gaps_of_def py_max_def py_get_def
        upt_rec Let_def)
  with sx cs have s: "split_x = (cl + cr) / 2" by simp
  from lr have c1: "cl < split_x" and c2: "split_x \<le> cr" and c3: "\<not> cr < split_x"
    and c4: "\<not> split_x \<le> cl"
    by (simp_all add: s field_simps)
  have "mset (filter (\<lambda>it. x_center it < split_x) ?S) = {#TL, BL#}"
    by (simp add: ms xc c1 c3)
  then have L: "sort_key y_top (filter (\<lambda>it. x_center it < split_x) ?S) = [TL, BL]"
    by (rule sort_key_two) (simp add: yt' y)
  have "mset (filter (\<lambda>it. split_x \<le> x_center it) ?S) = {#TR, BR#}"
    by (simp add: ms xc c2 c4)
  then have R: "sort_key y_top (filter (\<lambda>it. split_x \<le> x_center it) ?S) = [TR, BR]"
    by (rule sort_key_two) (simp add: yt' y)
  show ?thesis
    unfolding out L R by (simp add: names)
qed

text \<open>
  Claim C1 says that every non-empty list of rectangles is sorted without an exception and
  that a single panel comes back as a one-element sequence. The empty list returns the
  empty list (\<open>sort_panels_empty\<close>) and a list of two or more panels returns
  (\<open>sort_panels_returns\<close>), but a list of exactly one panel raises IndexError
  (\<open>sort_panels_single\<close>): there are no gaps, line 44 sets \<open>split_idx\<close> to \<open>0\<close>, and
  line 45 reads \<open>x_centers[1]\<close> of a one-element list. The theorem evaluates the function
  on the single panel \<open>(0, 0, 10, 10)\<close>.
\<close>

theorem single_panel_raises:
  "sort_panels_by_column_then_row [(0, (0, 0, 10, 10))] False = Inl IndexError"
  by (rule sort_panels_single)

text \<open>
  Claim C2 says that in the merge a spanning panel is placed before a column panel of equal
  \<open>y_top\<close>. The test of line 66 is strict, so on a tie the \<^verbatim>\<open>else\<close> branch takes the column
  panel. Counterexample: the banner \<open>(0, 0, 100, 20)\<close> spans the page and shares \<open>y = 0\<close>
  with the two column panels, and it is emitted after both of them.
\<close>

theorem merge_tie_counterexample:
  "d2 (mk_datum banner) = d2 (mk_datum top_left)
   \<and> merge_by_y_top [mk_datum top_left] [mk_datum banner] = [top_left, banner]
   \<and> sort_panels_by_column_then_row [banner, top_left, top_right] False
       = Inr [top_left, top_right, banner]"
  by (simp add: sample_panels, code_simp)

text \<open>
  Claim C2 as amended: when the next spanning panel and the next column panel have equal
  \<open>y_top\<close>, the merge step emits the column panel first and keeps the spanning panel as
  the next spanning candidate. The spanning panel is emitted first exactly when its
  \<open>y_top\<close> is strictly smaller; when it is larger the column panel goes first as well.
\<close>

theorem merge_tie_column_first:
  "(y_top s = y_top n \<longrightarrow>
      merge_by_y_top (mk_datum n # ns) (mk_datum s # ss) = n # merge_by_y_top ns (mk_datum s # ss))
   \<and> (y_top s < y_top n \<longrightarrow>
      merge_by_y_top (mk_datum n # ns) (mk_datum s # ss) = s # merge_by_y_top (mk_datum n # ns) ss)
   \<and> (y_top n < y_top s \<longrightarrow>
      merge_by_y_top (mk_datum n # ns) (mk_datum s # ss) = n # merge_by_y_top ns (mk_datum s # ss))"
  by (simp add: d2_mk_datum d0_mk_datum)

theorem merge_tie_column_first_witness:
  "y_top banner = y_top top_left
   \<and> merge_by_y_top [mk_datum top_left, mk_datum top_right] [mk_datum banner]
       = [top_left, top_right, banner]
   \<and> y_top banner < y_top bottom_left
   \<and> merge_by_y_top [mk_datum bottom_left] [mk_datum banner] = [banner, bottom_left]
   \<and> y_top top_left < y_top footer
   \<and> merge_by_y_top [mk_datum top_left] [mk_datum footer] = [top_left, footer]"
proof -
  have e: "y_top banner = y_top top_left" "y_top banner = y_top top_right"
    "y_top banner < y_top bottom_left" "y_top top_left < y_top footer"
    by (simp_all add: sample_panels y_top_def)
  from merge_tie_column_first [of banner top_left "[mk_datum top_right]" "[]"] e(1)
  have "merge_by_y_top [mk_datum top_left, mk_datum top_right] [mk_datum banner]
      = top_left # merge_by_y_top [mk_datum top_right] [mk_datum banner]"
    by blast
  also from merge_tie_column_first [of banner top_right "[]" "[]"] e(2)
  have "merge_by_y_top [mk_datum top_right] [mk_datum banner]
      = top_right # merge_by_y_top [] [mk_datum banner]"
    by blast
  finally have a: "merge_by_y_top [mk_datum top_left, mk_datum top_right] [mk_datum banner]
       = [top_left, top_right, banner]"
    by (simp add: d0_mk_datum)
  from merge_tie_column_first [of banner bottom_left "[]" "[]"] e(3)
  have "merge_by_y_top [mk_datum bottom_left] [mk_datum banner]
      = banner # merge_by_y_top [mk_datum bottom_left] []"
    by blast
  then have b: "merge_by_y_top [mk_datum bottom_left] [mk_datum banner] = [banner, bottom_left]"
    by (simp add: d0_mk_datum)
  from merge_tie_column_first [of footer top_left "[]" "[]"] e(4)
  have "merge_by_y_top [mk_datum top_left] [mk_datum footer]
      = top_left # merge_by_y_top [] [mk_datum footer]"
    by blast
  then have c: "merge_by_y_top [mk_datum top_left] [mk_datum footer] = [top_left, footer]"
    by (simp add: d0_mk_datum)
  show ?thesis by (intro conjI e(1) a e(3) b e(4) c)
qed

text \<open>
  Claim C8: whenever the function returns, the result is a permutation of the input items.
  An item carries its reference, so equal multisets of items are equal multisets of
  references: each returned element is one of the caller's objects, none is copied,
  dropped or repeated.
\<close>

theorem sort_panels_permutation:
  assumes "sort_panels_by_column_then_row items rtl_order = Inr out"
  shows "mset out = mset items \<and> length out = length items \<and> set out = set items
     \<and> mset (map fst out) = mset (map fst items)"
proof -
  have m: "mset out = mset items" by (rule sort_panels_mset [OF assms])
  then show ?thesis
    by (metis mset_eq_length mset_eq_setD mset_map)
qed

theorem sort_panels_permutation_witness:
  "sort_panels_by_column_then_row [top_left, top_right, banner, bottom_left] True
     = Inr [top_right, top_left, banner, bottom_left]
   \<and> mset [top_right, top_left, banner, bottom_left]
     = mset [top_left, top_right, banner, bottom_left]
   \<and> mset (map fst [top_right, top_left, banner, bottom_left])
     = mset (map fst [top_left, top_right, banner, bottom_left])"
proof -
  have e: "sort_panels_by_column_then_row [top_left, top_right, banner, bottom_left] True
     = Inr [top_right, top_left, banner, bottom_left]"
    by (simp add: sample_panels, code_simp)
  from sort_panels_permutation [OF e] e show ?thesis by simp
qed

lemma is_spanning_page:
  assumes "0 < d5 d"
  shows "is_spanning (max 0 page) d \<longleftrightarrow> (of_int page :: rat) * (6 / 10) \<le> of_int (d5 d)"
proof (cases "0 \<le> page")
  case True
  then show ?thesis by (simp add: is_spanning_def max_def)
next
  case False
  then have "(of_int page :: rat) * (6 / 10) \<le> 0"
    by (simp add: mult_le_0_iff)
  moreover from assms have "(0::rat) \<le> of_int (d5 d)" by simp
  ultimately show ?thesis using False by (simp add: is_spanning_def max_def)
qed

lemma full_width_page:
  "items \<noteq> [] \<Longrightarrow> snd (gather items) = max 0 (Max (right_edge ` set items))"
  by (simp add: gather_max_x2 max.commute)

text \<open>
  Claim C6: for a non-empty list of rectangles of positive width, the panels classified as
  spanning are exactly those whose width is at least \<open>0.6\<close> times the largest right edge
  \<open>x + w\<close> of the input, the remaining ones are exactly the others, and when fewer than two
  panels remain the split is dropped: every panel is treated as non-spanning and the
  spanning list is empty. (The running maximum of line 21 starts at \<open>0\<close>, so
  \<open>full_width\<close> is \<open>max 0\<close> of the largest right edge; for positive widths the two
  thresholds classify alike.)
\<close>

theorem spanning_classification:
  assumes "items \<noteq> []" and "\<forall>it\<in>set items. 0 < width it"
  shows "let data = fst (gather items);
             full_width = snd (gather items);
             page = Max (right_edge ` set items);
             spanning = spanning_of data full_width;
             remaining = remaining_of data spanning
         in data = map mk_datum items
          \<and> full_width = max 0 page
          \<and> spanning = filter (\<lambda>d. (of_int page :: rat) * (6 / 10) \<le> of_int (d5 d)) data
          \<and> remaining = filter (\<lambda>d. \<not> (of_int page :: rat) * (6 / 10) \<le> of_int (d5 d)) data
          \<and> (length remaining < 2 \<longrightarrow> classify data full_width = (data, []))
          \<and> (2 \<le> length remaining \<longrightarrow> classify data full_width = (remaining, spanning))
          \<and> partition_panels items
              = (sort_key d1 (fst (classify data full_width)), snd (classify data full_width))"
proof -
  let ?data = "map mk_datum items"
  let ?page = "Max (right_edge ` set items)"
  let ?P = "\<lambda>d. (of_int ?page :: rat) * (6 / 10) \<le> of_int (d5 d)"
  have fw: "snd (gather items) = max 0 ?page" by (rule full_width_page [OF assms(1)])
  have pos: "0 < d5 d" if "d \<in> set ?data" for d
    using that assms(2) by (auto simp: d5_mk_datum)
  have sp: "spanning_of ?data (max 0 ?page) = filter ?P ?data"
    unfolding spanning_of_def by (rule filter_cong) (simp_all add: is_spanning_page pos)
  have "remaining_of ?data (spanning_of ?data (max 0 ?page))
      = filter (\<lambda>d. \<not> is_spanning (max 0 ?page) d) ?data"
    by (rule remaining_of_spanning)
  also have "\<dots> = filter (\<lambda>d. \<not> ?P d) ?data"
    by (rule filter_cong) (simp_all add: is_spanning_page pos)
  finally have rm: "remaining_of ?data (spanning_of ?data (max 0 ?page))
      = filter (\<lambda>d. \<not> ?P d) ?data" .
  have cl1: "length (remaining_of ?data (spanning_of ?data (max 0 ?page))) < 2 \<longrightarrow>
      classify ?data (max 0 ?page) = (?data, [])"
    by (simp add: classify_def Let_def)
  have cl2: "2 \<le> length (remaining_of ?data (spanning_of ?data (max 0 ?page))) \<longrightarrow>
      classify ?data (max 0 ?page)
        = (remaining_of ?data (spanning_of ?data (max 0 ?page)), spanning_of ?data (max 0 ?page))"
    by (simp add: classify_def Let_def)
  have pp: "partition_panels items
      = (sort_key d1 (fst (classify ?data (max 0 ?page))), snd (classify ?data (max 0 ?page)))"
    using gather_data [of items] fw
    by (auto simp: partition_panels_def Let_def split: prod.splits)
  show ?thesis
    unfolding Let_def gather_data fw
    using sp rm cl1 cl2 pp by (simp only: simp_thms)
qed

theorem spanning_classification_witness:
  "[banner, footer, top_left] \<noteq> [] \<and> list_all (\<lambda>it. 0 < width it) [banner, footer, top_left]
   \<and> Max (right_edge ` set [banner, footer, top_left]) = 100
   \<and> snd (gather [banner, footer, top_left]) = 100
   \<and> remaining_of (map mk_datum [banner, footer, top_left])
        (spanning_of (map mk_datum [banner, footer, top_left]) 100) = [mk_datum top_left]
   \<and> classify (map mk_datum [banner, footer, top_left]) 100
        = (map mk_datum [banner, footer, top_left], [])
   \<and> [banner, top_left, top_right, bottom_left] \<noteq> []
   \<and> list_all (\<lambda>it. 0 < width it) [banner, top_left, top_right, bottom_left]
   \<and> Max (right_edge ` set [banner, top_left, top_right, bottom_left]) = 100
   \<and> classify (map mk_datum [banner, top_left, top_right, bottom_left]) 100
        = (map mk_datum [top_left, top_right, bottom_left], [mk_datum banner])"
proof -
  have a1: "[banner, footer, top_left] \<noteq> []" by simp
  have a2: "list_all (\<lambda>it. 0 < width it) [banner, footer, top_left]"
    by (simp add: width_def sample_panels)
  have a3: "Max (right_edge ` set [banner, footer, top_left]) = 100"
    by (simp add: right_edge_def sample_panels)
  have a4: "remaining_of (map mk_datum [banner, footer, top_left])
        (spanning_of (map mk_datum [banner, footer, top_left]) 100) = [mk_datum top_left]"
    by (simp add: sample_panels, code_simp)
  have b1: "[banner, top_left, top_right, bottom_left] \<noteq> []" by simp
  have b2: "list_all (\<lambda>it. 0 < width it) [banner, top_left, top_right, bottom_left]"
    by (simp add: width_def sample_panels)
  have b3: "Max (right_edge ` set [banner, top_left, top_right, bottom_left]) = 100"
    by (simp add: right_edge_def sample_panels)
  have b4: "remaining_of (map mk_datum [banner, top_left, top_right, bottom_left])
        [mk_datum banner]
      = map mk_datum [top_left, top_right, bottom_left]"
    by (simp add: sample_panels, code_simp)
  have b5: "spanning_of (map mk_datum [banner, top_left, top_right, bottom_left]) 100
      = [mk_datum banner]"
    by (simp add: sample_panels, code_simp)
  have a5: "max 0 (Max (right_edge ` set [banner, footer, top_left])) = 100"
    unfolding a3 by simp
  have b6: "max 0 (Max (right_edge ` set [banner, top_left, top_right, bottom_left])) = 100"
    unfolding b3 by simp
  note A = spanning_classification [OF a1 a2 [unfolded list_all_iff], unfolded Let_def]
  from A have ga: "fst (gather [banner, footer, top_left]) = map mk_datum [banner, footer, top_left]"
    by (rule conjunct1)
  from A have "snd (gather [banner, footer, top_left])
      = max 0 (Max (right_edge ` set [banner, footer, top_left]))"
    by blast
  from this a5 have fa: "snd (gather [banner, footer, top_left]) = 100"
    by (rule trans)
  from A have "length (remaining_of (fst (gather [banner, footer, top_left]))
        (spanning_of (fst (gather [banner, footer, top_left]))
          (snd (gather [banner, footer, top_left])))) < 2 \<longrightarrow>
      classify (fst (gather [banner, footer, top_left])) (snd (gather [banner, footer, top_left]))
        = (fst (gather [banner, footer, top_left]), [])"
    by blast
  then have ca: "classify (map mk_datum [banner, footer, top_left]) 100
        = (map mk_datum [banner, footer, top_left], [])"
    unfolding ga fa a4 by simp
  note B = spanning_classification [OF b1 b2 [unfolded list_all_iff], unfolded Let_def]
  from B have gb: "fst (gather [banner, top_left, top_right, bottom_left])
      = map mk_datum [banner, top_left, top_right, bottom_left]"
    by (rule conjunct1)
  from B have "snd (gather [banner, top_left, top_right, bottom_left])
      = max 0 (Max (right_edge ` set [banner, top_left, top_right, bottom_left]))"
    by blast
  from this b6 have fb: "snd (gather [banner, top_left, top_right, bottom_left]) = 100"
    by (rule trans)
  from B have "2 \<le> length (remaining_of (fst (gather [banner, top_left, top_right, bottom_left]))
        (spanning_of (fst (gather [banner, top_left, top_right, bottom_left]))
          (snd (gather [banner, top_left, top_right, bottom_left])))) \<longrightarrow>
      classify (fst (gather [banner, top_left, top_right, bottom_left]))
          (snd (gather [banner, top_left, top_right, bottom_left]))
        = (remaining_of (fst (gather [banner, top_left, top_right, bottom_left]))
            (spanning_of (fst (gather [banner, top_left, top_right, bottom_left]))
              (snd (gather [banner, top_left, top_right, bottom_left]))),
           spanning_of (fst (gather [banner, top_left, top_right, bottom_left]))
             (snd (gather [banner, top_left, top_right, bottom_left])))"
    by blast
  then have cb: "classify (map mk_datum [banner, top_left, top_right, bottom_left]) 100
        = (map mk_datum [top_left, top_right, bottom_left], [mk_datum banner])"
    unfolding gb fb b4 b5 by simp
  show ?thesis
    by (intro conjI a1 a2 a3 fa a4 ca b1 b2 b3 cb)
qed

text \<open>
  Claim C7: when no panel is spanning (and there are at least two panels, so that the
  function returns), the output is the left column followed by the right column, or the
  right column followed by the left one when \<open>rtl_order\<close> is set. The left column holds
  the panels whose centre \<open>x + w/2\<close> is below \<open>split_x\<close>, the right column the others, and
  each column is in ascending \<open>y\<close>; centres and tops are read from the rectangles of
  the items. Four panels of one size at the quadrant positions, none of them spanning and
  given in any order, sort right to left to top-right, bottom-right, top-left,
  bottom-left.
\<close>

theorem columns_order:
  "(2 \<le> length items \<and> snd (partition_panels items) = [] \<longrightarrow>
      (\<exists>split_x left right.
          split_x_of (map x_center (sort_key x_center items)) = Inr split_x
        \<and> left = sort_key y_top (filter (\<lambda>it. x_center it < split_x) (sort_key x_center items))
        \<and> right = sort_key y_top (filter (\<lambda>it. split_x \<le> x_center it) (sort_key x_center items))
        \<and> sort_panels_by_column_then_row items rtl_order
            = Inr (if rtl_order then right @ left else left @ right)
        \<and> (\<forall>it\<in>set left. x_center it < split_x) \<and> (\<forall>it\<in>set right. split_x \<le> x_center it)
        \<and> sorted (map y_top left) \<and> sorted (map y_top right)
        \<and> mset (left @ right) = mset items))
   \<and> (mset quads
         = {#(a, (xl, yt, w, h)), (b, (xr, yt, w, h)), (c, (xl, yb, w, h)), (d, (xr, yb, w, h))#}
       \<and> xl < xr \<and> yt < yb \<and> 0 < w \<and> 10 * w < 6 * (xr + w) \<longrightarrow>
        sort_panels_by_column_then_row quads True
        = Inr [(b, (xr, yt, w, h)), (d, (xr, yb, w, h)), (a, (xl, yt, w, h)),
               (c, (xl, yb, w, h))])"
proof (intro conjI impI)
  assume "2 \<le> length items \<and> snd (partition_panels items) = []"
  then have len: "2 \<le> length items" and p: "snd (partition_panels items) = []"
    by simp_all
  let ?S = "sort_key x_center items"
  from sort_panels_no_spanning [OF len p, of rtl_order] obtain split_x where
    sx: "split_x_of (map x_center ?S) = Inr split_x"
    and out: "sort_panels_by_column_then_row items rtl_order
        = Inr (if rtl_order
            then sort_key y_top (filter (\<lambda>it. split_x \<le> x_center it) ?S)
               @ sort_key y_top (filter (\<lambda>it. x_center it < split_x) ?S)
            else sort_key y_top (filter (\<lambda>it. x_center it < split_x) ?S)
               @ sort_key y_top (filter (\<lambda>it. split_x \<le> x_center it) ?S))"
    by blast
  let ?left = "sort_key y_top (filter (\<lambda>it. x_center it < split_x) ?S)"
  let ?right = "sort_key y_top (filter (\<lambda>it. split_x \<le> x_center it) ?S)"
  have cols: "(\<forall>it\<in>set ?left. x_center it < split_x) \<and> (\<forall>it\<in>set ?right. split_x \<le> x_center it)"
    by simp
  have srt: "sorted (map y_top ?left) \<and> sorted (map y_top ?right)" by simp
  have "mset (?left @ ?right)
      = {#it \<in># mset items. x_center it < split_x#} + {#it \<in># mset items. \<not> x_center it < split_x#}"
    by (simp add: not_less)
  also have "\<dots> = mset items" by (rule multiset_partition [symmetric])
  finally have ms: "mset (?left @ ?right) = mset items" .
  from sx out cols srt ms
  show "\<exists>split_x left right.
          split_x_of (map x_center (sort_key x_center items)) = Inr split_x
        \<and> left = sort_key y_top (filter (\<lambda>it. x_center it < split_x) (sort_key x_center items))
        \<and> right = sort_key y_top (filter (\<lambda>it. split_x \<le> x_center it) (sort_key x_center items))
        \<and> sort_panels_by_column_then_row items rtl_order
            = Inr (if rtl_order then right @ left else left @ right)
        \<and> (\<forall>it\<in>set left. x_center it < split_x) \<and> (\<forall>it\<in>set right. split_x \<le> x_center it)
        \<and> sorted (map y_top left) \<and> sorted (map y_top right)
        \<and> mset (left @ right) = mset items"
    by blast
next
  assume "mset quads
         = {#(a, (xl, yt, w, h)), (b, (xr, yt, w, h)), (c, (xl, yb, w, h)), (d, (xr, yb, w, h))#}
       \<and> xl < xr \<and> yt < yb \<and> 0 < w \<and> 10 * w < 6 * (xr + w)"
  then show "sort_panels_by_column_then_row quads True
        = Inr [(b, (xr, yt, w, h)), (d, (xr, yb, w, h)), (a, (xl, yt, w, h)),
               (c, (xl, yb, w, h))]"
    using quadrants_any_order [of quads a xl yt w h b xr c yb d True] by simp
qed

theorem columns_order_witness:
  "2 \<le> length [bottom_right, bottom_left, top_right, top_left]
   \<and> snd (partition_panels [bottom_right, bottom_left, top_right, top_left]) = []
   \<and> split_x_of (map x_center
        (sort_key x_center [bottom_right, bottom_left, top_right, top_left])) = Inr 50
   \<and> sort_panels_by_column_then_row [bottom_right, bottom_left, top_right, top_left] False
       = Inr [top_left, bottom_left, top_right, bottom_right]
   \<and> mset [(3, (60, 60, 40, 40)), (2, (0, 60, 40, 40)), (1, (60, 0, 40, 40)), (0, (0, 0, 40, 40))]
       = {#(0::nat, (0::int, 0::int, 40::int, 40::int)), (1, (60, 0, 40, 40)),
           (2, (0, 60, 40, 40)), (3, (60, 60, 40, 40))#}
   \<and> (0::int) < 60 \<and> (0::int) < 40 \<and> (10::int) * 40 < 6 * (60 + 40)
   \<and> sort_panels_by_column_then_row
        [(3, (60, 60, 40, 40)), (2, (0, 60, 40, 40)), (1, (60, 0, 40, 40)), (0, (0, 0, 40, 40))]
        True
      = Inr [(1, (60, 0, 40, 40)), (3, (60, 60, 40, 40)), (0, (0, 0, 40, 40)),
             (2, (0, 60, 40, 40))]"
proof -
  let ?Q = "[bottom_right, bottom_left, top_right, top_left]"
  have h: "2 \<le> length ?Q" by simp
  have p: "snd (partition_panels ?Q) = []"
    by code_simp
  have sx: "split_x_of (map x_center (sort_key x_center ?Q)) = Inr 50"
    by code_simp
  have ev: "sort_key y_top (filter (\<lambda>it. x_center it < 50) (sort_key x_center ?Q))
      @ sort_key y_top (filter (\<lambda>it. 50 \<le> x_center it) (sort_key x_center ?Q))
      = [top_left, bottom_left, top_right, bottom_right]"
    by code_simp
  from columns_order [of ?Q False, THEN conjunct1, THEN mp, OF conjI [OF h p]]
  obtain split_x left right where
    s: "split_x_of (map x_center (sort_key x_center ?Q)) = Inr split_x"
    and lr: "left = sort_key y_top (filter (\<lambda>it. x_center it < split_x) (sort_key x_center ?Q))"
      "right = sort_key y_top (filter (\<lambda>it. split_x \<le> x_center it) (sort_key x_center ?Q))"
    and out: "sort_panels_by_column_then_row ?Q False
        = Inr (if False then right @ left else left @ right)"
    by (elim exE conjE)
  from s have s50: "split_x = 50" by (simp only: sx sum.inject)
  from out have l: "sort_panels_by_column_then_row ?Q False
      = Inr [top_left, bottom_left, top_right, bottom_right]"
    by (simp only: lr s50 if_False ev)
  have m: "mset [(3, (60, 60, 40, 40)), (2, (0, 60, 40, 40)), (1, (60, 0, 40, 40)),
        (0, (0, 0, 40, 40))]
       = {#(0::nat, (0::int, 0::int, 40::int, 40::int)), (1, (60, 0, 40, 40)),
           (2, (0, 60, 40, 40)), (3, (60, 60, 40, 40))#}"
    by simp
  have n: "(0::int) < 60" "(0::int) < 40" "(10::int) * 40 < 6 * (60 + 40)" by simp_all
  note T = columns_order [where quads = "[(3, (60, 60, 40, 40)), (2, (0, 60, 40, 40)),
        (1, (60, 0, 40, 40)), (0, (0, 0, 40, 40))]"
      and xl = 0 and xr = 60 and yt = 0 and yb = 60 and w = 40 and h = 40
      and a = 0 and b = 1 and c = 2 and d = 3, THEN conjunct2]
  have q: "sort_panels_by_column_then_row
        [(3, (60, 60, 40, 40)), (2, (0, 60, 40, 40)), (1, (60, 0, 40, 40)), (0, (0, 0, 40, 40))]
        True
      = Inr [(1, (60, 0, 40, 40)), (3, (60, 60, 40, 40)), (0, (0, 0, 40, 40)),
             (2, (0, 60, 40, 40))]"
    by (rule mp [OF T]) (intro conjI m n)
  show ?thesis
    by (intro conjI h p sx l m n q)
qed

section \<open>Properties of _find_best_border_line\<close>

lemma continuity_score_in_bounds:
  "in_bounds m ax i \<Longrightarrow> continuity_score m ax i = Inr (continuity m ax i)"
  by (auto simp: in_bounds_def continuity_def continuity_score_def np_index_def Let_def
      split: if_splits)

lemma continuity_score_Inr:
  "continuity_score m ax i = Inr c \<Longrightarrow> c = continuity m ax i"
  by (simp add: continuity_def)

lemma weight_nonneg: "0 \<le> sp \<Longrightarrow> 0 \<le> fl (1 + fl (of_int \<bar>p\<bar> / of_int sp))"
  by (intro fl_nonneg add_nonneg_nonneg divide_nonneg_nonneg) simp_all

lemma line_score_nonneg: "0 \<le> sp \<Longrightarrow> 0 \<le> line_score c i s sp"
  unfolding line_score_def Let_def
  by (intro fl_nonneg mult_nonneg_nonneg weight_nonneg) simp_all

lemma score_at_nonneg: "0 \<le> score_at m ax r i"
  unfolding score_at_def
  by (intro fl_nonneg mult_nonneg_nonneg weight_nonneg) (simp_all add: total_span_of_def)

lemma continuity_score_bounds: "continuity_score m ax i = Inr c \<Longrightarrow> in_bounds m ax i"
  by (auto simp: continuity_score_def in_bounds_def np_index_def Let_def
      split: if_splits sum.splits)

lemma np_index_wrap: "np_index n i = Inr k \<Longrightarrow> k = wrap_index n i"
  by (auto simp: np_index_def wrap_index_def split: if_splits)

lemma count_nonzero_card:
  "count_nonzero (map f [0..<n]) = card {j \<in> {0..<n}. f j \<noteq> 0}"
proof -
  have "count_nonzero (map f [0..<n]) = length (filter (\<lambda>j. f j \<noteq> 0) [0..<n])"
    by (simp add: count_nonzero_def filter_map o_def)
  also have "\<dots> = card (set (filter (\<lambda>j. f j \<noteq> 0) [0..<n]))"
    by (rule distinct_card [symmetric]) simp
  also have "set (filter (\<lambda>j. f j \<noteq> 0) [0..<n]) = {j \<in> {0..<n}. f j \<noteq> 0}"
    by auto
  finally show ?thesis .
qed

lemma continuity_line_foreground:
  "in_bounds m ax i \<Longrightarrow> continuity m ax i = line_foreground m ax i"
proof -
  assume "in_bounds m ax i"
  from continuity_score_in_bounds [OF this]
  have c: "continuity_score m ax i = Inr (continuity m ax i)" .
  show ?thesis
  proof (cases "ax = 1")
    case True
    with c obtain k where k: "np_index (shape0 m) i = Inr k"
      and v: "continuity m ax i = count_nonzero (row_of m k)"
      by (auto simp: continuity_score_def split: sum.splits)
    from np_index_wrap [OF k] v True show ?thesis
      by (simp add: line_foreground_def row_of_def count_nonzero_card)
  next
    case False
    with c obtain k where k: "np_index (shape1 m) i = Inr k"
      and v: "continuity m ax i = count_nonzero (col_of m k)"
      by (auto simp: continuity_score_def split: sum.splits)
    from np_index_wrap [OF k] v False show ?thesis
      by (simp add: line_foreground_def col_of_def count_nonzero_card)
  qed
qed

lemma score_at_line_score:
  "in_bounds m ax i \<Longrightarrow>
   score_at m ax r i = line_score (continuity m ax i) i (start r) (total_span_of r)"
  by (simp add: score_at_def line_score_def Let_def continuity_line_foreground)

lemma scan_lines_in_bounds:
  "scan_lines m ax s sp L st = Inr st' \<Longrightarrow> \<forall>j\<in>set L. in_bounds m ax j"
proof (induction L arbitrary: st)
  case Nil
  then show ?case by simp
next
  case (Cons i rest)
  from Cons.prems obtain c where c: "continuity_score m ax i = Inr c"
    by (auto split: sum.splits)
  with Cons.prems
  have "scan_lines m ax s sp rest
      (if snd st \<le> line_score c i s sp then (i, line_score c i s sp) else st) = Inr st'"
    by (simp add: Let_def)
  from Cons.IH [OF this] continuity_score_bounds [OF c] show ?case by simp
qed

lemma scan_lines_returns:
  "\<forall>i\<in>set L. in_bounds m ax i \<Longrightarrow> \<exists>st'. scan_lines m ax s sp L st = Inr st'"
  by (induction L arbitrary: st) (auto simp: continuity_score_in_bounds Let_def)

lemma scan_lines_result:
  assumes "scan_lines m ax s sp L st = Inr st'"
  shows "(st' = st \<and> (\<forall>j\<in>set L. line_score (continuity m ax j) j s sp < snd st))
    \<or> (\<exists>pre i post. L = pre @ i # post
          \<and> st' = (i, line_score (continuity m ax i) i s sp)
          \<and> snd st \<le> line_score (continuity m ax i) i s sp
          \<and> (\<forall>j\<in>set pre. line_score (continuity m ax j) j s sp
                \<le> line_score (continuity m ax i) i s sp)
          \<and> (\<forall>j\<in>set post. line_score (continuity m ax j) j s sp
                < line_score (continuity m ax i) i s sp))"
  using assms
proof (induction L arbitrary: st)
  case Nil
  then show ?case by simp
next
  case (Cons i rest)
  let ?sc = "\<lambda>j. line_score (continuity m ax j) j s sp"
  from Cons.prems obtain c where c: "continuity_score m ax i = Inr c"
    by (auto split: sum.splits)
  then have ceq: "c = continuity m ax i" by (rule continuity_score_Inr)
  let ?st1 = "if snd st \<le> ?sc i then (i, ?sc i) else st"
  from Cons.prems c ceq have run: "scan_lines m ax s sp rest ?st1 = Inr st'"
    by (simp add: Let_def)
  from Cons.IH [OF run] consider
      (keep) "st' = ?st1" "\<forall>j\<in>set rest. ?sc j < snd ?st1"
    | (later) pre k post where "rest = pre @ k # post" "st' = (k, ?sc k)"
        "snd ?st1 \<le> ?sc k" "\<forall>j\<in>set pre. ?sc j \<le> ?sc k" "\<forall>j\<in>set post. ?sc j < ?sc k"
    by blast
  then show ?case
  proof cases
    case keep
    show ?thesis
    proof (cases "snd st \<le> ?sc i")
      case True
      with keep have "i # rest = [] @ i # rest \<and> st' = (i, ?sc i) \<and> snd st \<le> ?sc i
          \<and> (\<forall>j\<in>set []. ?sc j \<le> ?sc i) \<and> (\<forall>j\<in>set rest. ?sc j < ?sc i)"
        by simp
      then show ?thesis by blast
    next
      case False
      with keep show ?thesis by auto
    qed
  next
    case later
    have "?sc i \<le> ?sc k \<and> snd st \<le> ?sc k"
      using later(3) by (auto split: if_splits)
    with later have "i # rest = (i # pre) @ k # post \<and> st' = (k, ?sc k) \<and> snd st \<le> ?sc k
        \<and> (\<forall>j\<in>set (i # pre). ?sc j \<le> ?sc k) \<and> (\<forall>j\<in>set post. ?sc j < ?sc k)"
      by simp
    then show ?thesis by blast
  qed
qed

lemma range_list_nonempty_span: "range_list r \<noteq> [] \<Longrightarrow> 0 < total_span_of r"
  by (auto simp: range_list_def range_len_def total_span_of_def split: if_splits)

lemma find_best_result:
  assumes ne: "range_list r \<noteq> []"
    and res: "find_best_border_line m ax r = Inr b"
  shows "\<exists>pre post. range_list r = pre @ b # post
      \<and> (\<forall>j\<in>set pre. score_at m ax r j \<le> score_at m ax r b)
      \<and> (\<forall>j\<in>set post. score_at m ax r j < score_at m ax r b)"
proof -
  from range_list_nonempty_span [OF ne] have sp: "0 < total_span_of r" .
  then have nz: "\<bar>stop r - start r\<bar> \<noteq> 0" by (simp add: total_span_of_def)
  from res nz obtain st' where
    run: "scan_lines m ax (start r) (total_span_of r) (range_list r) (start r, - 1) = Inr st'"
    and b: "b = fst st'"
    by (auto simp: find_best_border_line_def Let_def total_span_of_def split: sum.splits)
  from ne obtain j where j: "j \<in> set (range_list r)" by (cases "range_list r") auto
  have "\<not> line_score (continuity m ax j) j (start r) (total_span_of r) < - 1"
    using line_score_nonneg [of "total_span_of r" "continuity m ax j" j "start r"] sp by simp
  with j scan_lines_result [OF run] obtain pre i post where
    dec: "range_list r = pre @ i # post"
    and st: "st' = (i, line_score (continuity m ax i) i (start r) (total_span_of r))"
    and pre: "\<forall>j\<in>set pre. line_score (continuity m ax j) j (start r) (total_span_of r)
        \<le> line_score (continuity m ax i) i (start r) (total_span_of r)"
    and post: "\<forall>j\<in>set post. line_score (continuity m ax j) j (start r) (total_span_of r)
        < line_score (continuity m ax i) i (start r) (total_span_of r)"
    by (auto simp del: set_append)
  from scan_lines_in_bounds [OF run]
  have cv: "score_at m ax r k = line_score (continuity m ax k) k (start r) (total_span_of r)"
    if "k \<in> set (range_list r)" for k
    using that by (simp add: score_at_line_score)
  from b st have bi: "b = i" by simp
  have "\<forall>j\<in>set pre. score_at m ax r j \<le> score_at m ax r i"
    using pre by (simp add: cv dec)
  moreover have "\<forall>j\<in>set post. score_at m ax r j < score_at m ax r i"
    using post by (simp add: cv dec)
  ultimately show ?thesis using dec bi by blast
qed

lemma find_best_returns:
  assumes "\<forall>i\<in>set (range_list r). in_bounds m ax i"
  shows "\<exists>b. find_best_border_line m ax r = Inr b"
  using scan_lines_returns [OF assms, of "start r" "\<bar>stop r - start r\<bar>" "(start r, - 1)"]
  by (auto simp: find_best_border_line_def Let_def)

lemma walks_to_stop_nonempty:
  "walks_to_stop r \<Longrightarrow> 0 < total_span_of r \<Longrightarrow> range_list r \<noteq> []"
proof -
  assume w: "walks_to_stop r" and sp: "0 < total_span_of r"
  have "0 < range_len r"
  proof (cases "start r < stop r")
    case True
    with w have "0 < step r" by (simp add: walks_to_stop_def)
    moreover from this True have "0 \<le> (stop r - 1 - start r) div step r"
      by (simp add: pos_imp_zdiv_nonneg_iff)
    ultimately show ?thesis using True by (simp add: range_len_def)
  next
    case False
    with sp have lt: "stop r < start r" by (simp add: total_span_of_def)
    with w have neg: "step r < 0" by (simp add: walks_to_stop_def)
    moreover from this lt have "0 \<le> (start r - 1 - stop r) div (- step r)"
      by (simp add: pos_imp_zdiv_nonneg_iff)
    ultimately show ?thesis using lt by (simp add: range_len_def)
  qed
  then show ?thesis by (simp add: range_list_def)
qed

lemma range_list_progress:
  "sorted_wrt (\<lambda>a b. \<bar>a - start r\<bar> \<le> \<bar>b - start r\<bar>) (range_list r)"
proof -
  have "sorted_wrt (\<lambda>j k. \<bar>int j * step r\<bar> \<le> \<bar>int k * step r\<bar>) [0..<range_len r]"
    by (rule sorted_wrt_mono_rel [where P = "(<)"])
       (auto simp: abs_mult intro: mult_right_mono)
  then show ?thesis by (simp add: range_list_def sorted_wrt_map)
qed

lemma count_nonzero_zero: "\<forall>v\<in>set xs. v = 0 \<Longrightarrow> count_nonzero xs = 0"
  by (simp add: count_nonzero_def)

lemma count_nonzero_full: "\<forall>v\<in>set xs. v \<noteq> 0 \<Longrightarrow> count_nonzero xs = length xs"
  by (simp add: count_nonzero_def)

lemma np_index_bound: "np_index n i = Inr k \<Longrightarrow> k < n"
  by (auto simp: np_index_def split: if_splits)

lemma np_index_ok: "- int n \<le> i \<Longrightarrow> i < int n \<Longrightarrow> \<exists>k. np_index n i = Inr k"
  by (cases "0 \<le> i") (auto simp: np_index_def)

lemma continuity_background:
  "all_background m \<Longrightarrow> continuity m ax i = 0"
  by (auto simp: continuity_def continuity_score_def all_background_def list_all_iff
      row_of_def col_of_def dest!: np_index_bound intro!: count_nonzero_zero
      split: sum.splits)

lemma continuity_foreground:
  "all_foreground m \<Longrightarrow> in_bounds m ax i \<Longrightarrow>
   continuity m ax i = (if ax = 1 then shape1 m else shape0 m)"
proof -
  assume fg: "all_foreground m" and ib: "in_bounds m ax i"
  show ?thesis
  proof (cases "ax = 1")
    case True
    with ib obtain k where k: "np_index (shape0 m) i = Inr k"
      using np_index_ok [of "shape0 m" i] by (auto simp: in_bounds_def Let_def)
    from np_index_bound [OF k] fg have "\<forall>v\<in>set (row_of m k). v \<noteq> 0"
      by (auto simp: all_foreground_def list_all_iff row_of_def)
    from count_nonzero_full [OF this] k True show ?thesis
      by (simp add: continuity_def continuity_score_def row_of_def)
  next
    case False
    with ib obtain k where k: "np_index (shape1 m) i = Inr k"
      using np_index_ok [of "shape1 m" i] by (auto simp: in_bounds_def Let_def)
    from np_index_bound [OF k] fg have "\<forall>v\<in>set (col_of m k). v \<noteq> 0"
      by (auto simp: all_foreground_def list_all_iff col_of_def)
    from count_nonzero_full [OF this] k False show ?thesis
      by (simp add: continuity_def continuity_score_def col_of_def)
  qed
qed

lemma uniform_continuity:
  assumes "all_background m \<or> all_foreground m"
  shows "\<exists>c. \<forall>i. in_bounds m ax i \<longrightarrow> continuity m ax i = c"
  using assms continuity_background [of m ax] continuity_foreground [of m ax]
  by metis

lemma score_at_mono:
  assumes "line_foreground m ax i = line_foreground m ax j"
    and "\<bar>i - start r\<bar> \<le> \<bar>j - start r\<bar>"
    and "0 < total_span_of r"
  shows "score_at m ax r i \<le> score_at m ax r j"
proof -
  define wi where "wi = (of_int \<bar>i - start r\<bar> :: rat) / of_int (total_span_of r)"
  define wj where "wj = (of_int \<bar>j - start r\<bar> :: rat) / of_int (total_span_of r)"
  from assms(2,3) have q: "wi \<le> wj"
    unfolding wi_def wj_def by (intro divide_right_mono) simp_all
  have nn: "0 \<le> wi" unfolding wi_def using assms(3) by simp
  from nn q have a: "fl wi \<le> fl wj" by (rule fl_mono)
  from nn have b: "0 \<le> fl wi" by (rule fl_nonneg)
  from b have c: "0 \<le> 1 + fl wi" by simp
  from a have "1 + fl wi \<le> 1 + fl wj" by simp
  with c have d: "fl (1 + fl wi) \<le> fl (1 + fl wj)" by (rule fl_mono)
  from c have e: "0 \<le> fl (1 + fl wi)" by (rule fl_nonneg)
  have f: "(0::rat) \<le> of_nat (line_foreground m ax j)" by simp
  from e f have g: "0 \<le> of_nat (line_foreground m ax j) * fl (1 + fl wi)"
    by (intro mult_nonneg_nonneg)
  from d f have "of_nat (line_foreground m ax j) * fl (1 + fl wi)
      \<le> of_nat (line_foreground m ax j) * fl (1 + fl wj)"
    by (intro mult_left_mono)
  with g have "fl (of_nat (line_foreground m ax j) * fl (1 + fl wi))
      \<le> fl (of_nat (line_foreground m ax j) * fl (1 + fl wj))"
    by (rule fl_mono)
  then show ?thesis
    unfolding score_at_def assms(1) wi_def wj_def .
qed

lemma find_best_uniform:
  assumes uni: "all_background m \<or> all_foreground m"
    and ne: "range_list r \<noteq> []"
    and ib: "\<forall>i\<in>set (range_list r). in_bounds m ax i"
  shows "find_best_border_line m ax r = Inr (last (range_list r))"
proof -
  from find_best_returns [OF ib] obtain b where b: "find_best_border_line m ax r = Inr b"
    by blast
  from find_best_result [OF ne b] obtain pre post where
    dec: "range_list r = pre @ b # post"
    and post: "\<forall>j\<in>set post. score_at m ax r j < score_at m ax r b"
    by blast
  from uniform_continuity [OF uni] obtain c where
    c: "\<forall>i. in_bounds m ax i \<longrightarrow> continuity m ax i = c" by blast
  have "post = []"
  proof (rule ccontr)
    assume "post \<noteq> []"
    then obtain j where j: "j \<in> set post" by (cases post) auto
    from range_list_progress [of r] dec j have "\<bar>b - start r\<bar> \<le> \<bar>j - start r\<bar>"
      by (simp add: sorted_wrt_append)
    moreover from c ib dec j have "line_foreground m ax b = line_foreground m ax j"
      by (simp add: continuity_line_foreground [symmetric])
    ultimately have "score_at m ax r b \<le> score_at m ax r j"
      using range_list_nonempty_span [OF ne] by (intro score_at_mono)
    with post j show False by fastforce
  qed
  with dec b show ?thesis by simp
qed

lemma last_range_list:
  "range_list r \<noteq> [] \<Longrightarrow> last (range_list r) = start r + (int (range_len r) - 1) * step r"
  by (auto simp: range_list_def last_map of_nat_diff)

lemma div_mult_le_pos: "0 < (s::int) \<Longrightarrow> k \<le> a div s \<Longrightarrow> k * s \<le> a"
proof -
  assume s: "0 < s" and k: "k \<le> a div s"
  then have "k * s \<le> (a div s) * s" by (simp add: mult_right_mono)
  also have "\<dots> = a - a mod s" by (simp add: minus_mod_eq_div_mult)
  also have "\<dots> \<le> a" using s by simp
  finally show ?thesis .
qed

lemma range_list_bounds:
  assumes "i \<in> set (range_list r)"
  shows "(0 < step r \<longrightarrow> start r \<le> i \<and> i < stop r)
       \<and> (step r < 0 \<longrightarrow> stop r < i \<and> i \<le> start r)"
proof -
  from assms obtain k where k: "k < range_len r" and i: "i = start r + int k * step r"
    by (auto simp: range_list_def)
  show ?thesis
  proof (intro conjI impI)
    assume s: "0 < step r"
    then show "start r \<le> i" by (simp add: i)
    from k s have lt: "start r < stop r" and "int k \<le> (stop r - 1 - start r) div step r"
      by (auto simp: range_len_def split: if_splits)
    from div_mult_le_pos [OF s this(2)] show "i < stop r" by (simp add: i)
  next
    assume s: "step r < 0"
    then show "i \<le> start r" by (simp add: i mult_nonneg_nonpos)
    from s have s': "0 < - step r" by simp
    from k s have "int k \<le> (start r - 1 - stop r) div (- step r)"
      by (auto simp: range_len_def split: if_splits)
    from div_mult_le_pos [OF s' this] show "stop r < i" by (simp add: i)
  qed
qed

lemma last_range_list_up:
  "step r = 1 \<Longrightarrow> start r < stop r \<Longrightarrow> last (range_list r) = stop r - 1"
  by (simp add: range_list_def range_len_def last_map)

lemma last_range_list_down:
  "step r = - 1 \<Longrightarrow> stop r < start r \<Longrightarrow> last (range_list r) = stop r + 1"
  by (simp add: range_list_def range_len_def last_map)

lemma hd_range_list: "range_list r \<noteq> [] \<Longrightarrow> hd (range_list r) = start r"
  by (simp add: range_list_def hd_map upt_conv_Cons)

lemma all_background_zero_mask: "all_background (zero_mask h w)"
  by (simp add: all_background_def zero_mask_def list_all_iff)

lemma all_foreground_full_mask: "all_foreground (full_mask h w)"
  by (simp add: all_foreground_def full_mask_def list_all_iff)

text \<open>
  Claim C3 says that over a uniformly foreground or uniformly background mask the search
  returns \<open>start\<close>, the first index scanned. The update test of line 52 is \<open>>=\<close>: on
  a background mask every score is \<open>0\<close> and each index replaces the one before, on a
  foreground mask the scores never decrease with the progress, so in both the last index
  scanned wins.
  Counterexample: on a 3 by 3 mask of zeros, \<^verbatim>\<open>range(0, 3)\<close> returns \<open>2\<close>, not \<open>0\<close>; on a
  3 by 3 mask of 255, \<^verbatim>\<open>range(2, -1, -1)\<close> returns \<open>0\<close>, not \<open>2\<close>.
\<close>

theorem uniform_mask_counterexample:
  "all_background (zero_mask 3 3)
   \<and> 0 < total_span_of (range_up 0 3)
   \<and> find_best_border_line (zero_mask 3 3) 1 (range_up 0 3) = Inr 2
   \<and> find_best_border_line (zero_mask 3 3) 1 (range_up 0 3) \<noteq> Inr (start (range_up 0 3))
   \<and> all_foreground (full_mask 3 3)
   \<and> 0 < total_span_of (range_down 2 (- 1))
   \<and> find_best_border_line (full_mask 3 3) 0 (range_down 2 (- 1)) = Inr 0
   \<and> find_best_border_line (full_mask 3 3) 0 (range_down 2 (- 1))
        \<noteq> Inr (start (range_down 2 (- 1)))"
proof -
  have a: "find_best_border_line (zero_mask 3 3) 1 (range_up 0 3) = Inr 2"
    by code_simp
  have b: "find_best_border_line (full_mask 3 3) 0 (range_down 2 (- 1)) = Inr 0"
    by code_simp
  show ?thesis
    by (simp add: a b all_background_zero_mask all_foreground_full_mask)
       (simp add: total_span_of_def range_up_def range_down_def)
qed

text \<open>
  Claim C3 as amended: for every scan range of positive span that walks from \<open>start\<close>
  toward \<open>stop\<close> over valid indices of a mask that is uniformly foreground or uniformly
  background, the search returns the last index scanned: \<open>stop - 1\<close> for a unit step
  upward, \<open>stop + 1\<close> for a unit step downward. That index is \<open>start\<close> exactly when
  the range holds a single index.
\<close>

theorem find_best_uniform_last:
  assumes "all_background roi_mask \<or> all_foreground roi_mask"
    and "0 < total_span_of r" and "walks_to_stop r"
    and "\<forall>i\<in>set (range_list r). in_bounds roi_mask axis i"
  shows "find_best_border_line roi_mask axis r = Inr (last (range_list r))
    \<and> (step r = 1 \<longrightarrow> last (range_list r) = stop r - 1)
    \<and> (step r = - 1 \<longrightarrow> last (range_list r) = stop r + 1)
    \<and> (last (range_list r) = start r \<longleftrightarrow> length (range_list r) = 1)"
proof -
  from walks_to_stop_nonempty [OF assms(3,2)] have ne: "range_list r \<noteq> []" .
  have up: "step r = 1 \<longrightarrow> last (range_list r) = stop r - 1"
    using ne last_range_list_up [of r] by (auto simp: range_list_def range_len_def)
  have down: "step r = - 1 \<longrightarrow> last (range_list r) = stop r + 1"
    using ne last_range_list_down [of r] by (auto simp: range_list_def range_len_def)
  from ne have len: "0 < range_len r" by (simp add: range_list_def)
  then have nz: "step r \<noteq> 0" by (auto simp: range_len_def split: if_splits)
  have "length (range_list r) = range_len r" by (simp add: range_list_def)
  then have "last (range_list r) = start r \<longleftrightarrow> length (range_list r) = 1"
    using len nz last_range_list [OF ne] by auto
  with find_best_uniform [OF assms(1) ne assms(4)] up down show ?thesis by simp
qed

theorem find_best_uniform_last_witness:
  "(all_background (zero_mask 3 3) \<or> all_foreground (zero_mask 3 3))
   \<and> 0 < total_span_of (range_up 0 3)
   \<and> list_all (in_bounds (zero_mask 3 3) 1) (range_list (range_up 0 3))
   \<and> find_best_border_line (zero_mask 3 3) 1 (range_up 0 3)
       = Inr (last (range_list (range_up 0 3)))
   \<and> last (range_list (range_up 0 3)) = 2
   \<and> (all_background (full_mask 3 3) \<or> all_foreground (full_mask 3 3))
   \<and> 0 < total_span_of (range_down 2 (- 1))
   \<and> list_all (in_bounds (full_mask 3 3) 0) (range_list (range_down 2 (- 1)))
   \<and> find_best_border_line (full_mask 3 3) 0 (range_down 2 (- 1))
       = Inr (last (range_list (range_down 2 (- 1))))
   \<and> last (range_list (range_down 2 (- 1))) = 0"
proof -
  have u: "range_list (range_up 0 3) = [0, 1, 2]" by code_simp
  have d: "range_list (range_down 2 (- 1)) = [2, 1, 0]" by code_simp
  have h1: "all_background (zero_mask 3 3) \<or> all_foreground (zero_mask 3 3)"
    by (simp add: all_background_zero_mask)
  have h2: "0 < total_span_of (range_up 0 3)" "walks_to_stop (range_up 0 3)"
    by (simp_all add: total_span_of_def walks_to_stop_def range_up_def)
  have h3: "list_all (in_bounds (zero_mask 3 3) 1) (range_list (range_up 0 3))"
    by (simp add: u in_bounds_def zero_mask_def)
  have g1: "all_background (full_mask 3 3) \<or> all_foreground (full_mask 3 3)"
    by (simp add: all_foreground_full_mask)
  have g2: "0 < total_span_of (range_down 2 (- 1))" "walks_to_stop (range_down 2 (- 1))"
    by (simp_all add: total_span_of_def walks_to_stop_def range_down_def)
  have g3: "list_all (in_bounds (full_mask 3 3) 0) (range_list (range_down 2 (- 1)))"
    by (simp add: d in_bounds_def full_mask_def)
  have r1: "find_best_border_line (zero_mask 3 3) 1 (range_up 0 3)
       = Inr (last (range_list (range_up 0 3)))"
    using find_best_uniform_last [OF h1 h2 h3 [unfolded list_all_iff]] by (rule conjunct1)
  have r2: "find_best_border_line (full_mask 3 3) 0 (range_down 2 (- 1))
       = Inr (last (range_list (range_down 2 (- 1))))"
    using find_best_uniform_last [OF g1 g2 g3 [unfolded list_all_iff]] by (rule conjunct1)
  have l1: "last (range_list (range_up 0 3)) = 2" by (simp add: u)
  have l2: "last (range_list (range_down 2 (- 1))) = 0" by (simp add: d)
  show ?thesis by (intro conjI h1 h2(1) h3 r1 l1 g1 g2(1) g3 r2 l2)
qed

lemma after_in_post:
  assumes "xs = pre @ b # post" and "distinct xs" and "j \<in> set xs"
    and "j \<notin> set (takeWhile (\<lambda>x. x \<noteq> b) xs)" and "j \<noteq> b"
  shows "j \<in> set post"
proof -
  from assms(1,2) have nb: "b \<notin> set pre" by auto
  have "takeWhile (\<lambda>x. x \<noteq> b) (pre @ b # post)
      = pre @ takeWhile (\<lambda>x. x \<noteq> b) (b # post)"
    using nb by (intro takeWhile_append2) auto
  then have "takeWhile (\<lambda>x. x \<noteq> b) xs = pre"
    by (simp add: assms(1))
  with assms show ?thesis by auto
qed

lemma nine_mask_result: "find_best_border_line nine_mask 1 (range_up 0 9) = Inr 1"
  by code_simp

lemma column_mask_result: "find_best_border_line column_mask 0 (range_up 0 4) = Inr 2"
  by code_simp

text \<open>
  Claim C4 says that for every mask and every scan range of positive span the search
  returns a scanned index that maximizes \<open>continuity(i) * (1 + |i - start| / span)\<close>, the
  latest one among those of maximal score. It fails in three ways.
  The program computes the score in double precision, and two scores that are equal in
  exact arithmetic can differ after rounding: on a 9 by 3 mask with three foreground pixels
  in row 1 and two in row 6, both exact scores are \<open>10/3\<close>, the computed ones are
  \<open>3.3333333333333335\<close> at row 1 and \<open>3.333333333333333\<close> at row 6, and the search returns
  row 1, the earlier one.
  An index outside the mask raises IndexError: \<^verbatim>\<open>range(4, 5)\<close> on a mask of 4 rows.
  A range whose step points away from \<open>stop\<close> has positive span and scans nothing:
  \<^verbatim>\<open>range(3, 0)\<close> returns \<open>3\<close>, which was never scanned.
\<close>

theorem exact_score_counterexample:
  "map (exact_score nine_mask 1 (range_up 0 9)) (range_list (range_up 0 9))
     = [0, 10 / 3, 0, 0, 0, 0, 10 / 3, 0, 0]
   \<and> score_at nine_mask 1 (range_up 0 9) 1 = 7505999378950827 / 2251799813685248
   \<and> score_at nine_mask 1 (range_up 0 9) 6 = 3752999689475413 / 1125899906842624
   \<and> find_best_border_line nine_mask 1 (range_up 0 9) = Inr 1
   \<and> 0 < total_span_of (range_up 4 5)
   \<and> find_best_border_line tie_mask 1 (range_up 4 5) = Inl IndexError
   \<and> 0 < total_span_of (range_up 3 0)
   \<and> range_list (range_up 3 0) = []
   \<and> find_best_border_line tie_mask 1 (range_up 3 0) = Inr 3"
proof -
  have a: "map (exact_score nine_mask 1 (range_up 0 9)) (range_list (range_up 0 9))
     = [0, 10 / 3, 0, 0, 0, 0, 10 / 3, 0, 0]"
    by code_simp
  have b: "score_at nine_mask 1 (range_up 0 9) 1 = 7505999378950827 / 2251799813685248"
    by code_simp
  have c: "score_at nine_mask 1 (range_up 0 9) 6 = 3752999689475413 / 1125899906842624"
    by code_simp
  have d: "0 < total_span_of (range_up 4 5)" "0 < total_span_of (range_up 3 0)"
    by (simp_all add: total_span_of_def range_up_def)
  have e: "find_best_border_line tie_mask 1 (range_up 4 5) = Inl IndexError"
    by code_simp
  have f: "range_list (range_up 3 0) = []" by code_simp
  have g: "find_best_border_line tie_mask 1 (range_up 3 0) = Inr 3" by code_simp
  show ?thesis by (intro conjI a b c nine_mask_result d(1) e d(2) f g)
qed

text \<open>
  Claim C4 as amended: for every mask and every scan range of positive span that walks
  from \<open>start\<close> toward \<open>stop\<close> over indices valid for the mask, the search returns an
  index \<open>b\<close> of the scanned sequence whose score, computed in double precision with each
  operation rounded, \<open>fl (continuity(b) * fl (1 + fl (|b - start| / span)))\<close>, is maximal
  among the scanned indices, where \<open>continuity(b)\<close> is the count of foreground pixels along
  the full orthogonal line at \<open>b\<close>; every index scanned after \<open>b\<close> has a strictly smaller
  computed score, so among the indices of maximal computed score \<open>b\<close> is the one scanned
  latest.
\<close>

theorem find_best_maximizes:
  assumes "0 < total_span_of r" and "walks_to_stop r"
    and "\<forall>i\<in>set (range_list r). in_bounds roi_mask axis i"
  shows "\<exists>b pre post. find_best_border_line roi_mask axis r = Inr b
      \<and> range_list r = pre @ b # post
      \<and> (\<forall>j\<in>set (range_list r). score_at roi_mask axis r j \<le> score_at roi_mask axis r b)
      \<and> (\<forall>j\<in>set post. score_at roi_mask axis r j < score_at roi_mask axis r b)"
proof -
  from walks_to_stop_nonempty [OF assms(2,1)] have ne: "range_list r \<noteq> []" .
  from find_best_returns [OF assms(3)] obtain b
    where b: "find_best_border_line roi_mask axis r = Inr b" by blast
  from find_best_result [OF ne b] obtain pre post where
    dec: "range_list r = pre @ b # post"
    and pre: "\<forall>j\<in>set pre. score_at roi_mask axis r j \<le> score_at roi_mask axis r b"
    and post: "\<forall>j\<in>set post. score_at roi_mask axis r j < score_at roi_mask axis r b"
    by blast
  from pre post have "\<forall>j\<in>set (pre @ b # post).
      score_at roi_mask axis r j \<le> score_at roi_mask axis r b"
    by (auto intro: less_imp_le)
  with b dec post show ?thesis by metis
qed

theorem find_best_maximizes_witness:
  "0 < total_span_of (range_up 0 9)
   \<and> range_list (range_up 0 9) = [0, 1, 2, 3, 4, 5, 6, 7, 8]
   \<and> list_all (in_bounds nine_mask 1) (range_list (range_up 0 9))
   \<and> find_best_border_line nine_mask 1 (range_up 0 9) = Inr 1
   \<and> score_at nine_mask 1 (range_up 0 9) 0 \<le> score_at nine_mask 1 (range_up 0 9) 1
   \<and> score_at nine_mask 1 (range_up 0 9) 6 < score_at nine_mask 1 (range_up 0 9) 1
   \<and> 0 < total_span_of (range_up 0 4)
   \<and> range_list (range_up 0 4) = [0, 1, 2, 3]
   \<and> list_all (in_bounds column_mask 0) (range_list (range_up 0 4))
   \<and> map (line_foreground column_mask 0) (range_list (range_up 0 4)) = [1, 0, 3, 0]
   \<and> find_best_border_line column_mask 0 (range_up 0 4) = Inr 2
   \<and> score_at column_mask 0 (range_up 0 4) 0 \<le> score_at column_mask 0 (range_up 0 4) 2
   \<and> score_at column_mask 0 (range_up 0 4) 3 < score_at column_mask 0 (range_up 0 4) 2"
proof -
  have u: "range_list (range_up 0 9) = [0, 1, 2, 3, 4, 5, 6, 7, 8]" by code_simp
  have h1: "0 < total_span_of (range_up 0 9)" "walks_to_stop (range_up 0 9)"
    by (simp_all add: total_span_of_def walks_to_stop_def range_up_def)
  have h2: "list_all (in_bounds nine_mask 1) (range_list (range_up 0 9))"
    by (simp add: u in_bounds_def nine_mask_def)
  from find_best_maximizes [OF h1 h2 [unfolded list_all_iff]] obtain b pre post where
    b: "find_best_border_line nine_mask 1 (range_up 0 9) = Inr b"
    and dec: "range_list (range_up 0 9) = pre @ b # post"
    and mx: "\<forall>j\<in>set (range_list (range_up 0 9)).
        score_at nine_mask 1 (range_up 0 9) j \<le> score_at nine_mask 1 (range_up 0 9) b"
    and lt: "\<forall>j\<in>set post.
        score_at nine_mask 1 (range_up 0 9) j < score_at nine_mask 1 (range_up 0 9) b"
    by blast
  from b have b1: "b = 1" by (simp add: nine_mask_result)
  from dec have "[0, 1, 2, 3, 4, 5, 6, 7, 8] = pre @ 1 # post" by (simp only: u b1)
  then have "(6::int) \<in> set post"
    by (rule after_in_post) simp_all
  with lt have c2: "score_at nine_mask 1 (range_up 0 9) 6 < score_at nine_mask 1 (range_up 0 9) 1"
    by (simp add: b1)
  from mx have c1: "score_at nine_mask 1 (range_up 0 9) 0 \<le> score_at nine_mask 1 (range_up 0 9) 1"
    by (simp add: u b1)
  have v: "range_list (range_up 0 4) = [0, 1, 2, 3]" by code_simp
  have k1: "0 < total_span_of (range_up 0 4)" "walks_to_stop (range_up 0 4)"
    by (simp_all add: total_span_of_def walks_to_stop_def range_up_def)
  have k2: "list_all (in_bounds column_mask 0) (range_list (range_up 0 4))"
    by (simp add: v in_bounds_def column_mask_def)
  have fg: "map (line_foreground column_mask 0) (range_list (range_up 0 4)) = [1, 0, 3, 0]"
    by code_simp
  from find_best_maximizes [OF k1 k2 [unfolded list_all_iff]] obtain b' pre' post' where
    b': "find_best_border_line column_mask 0 (range_up 0 4) = Inr b'"
    and dec': "range_list (range_up 0 4) = pre' @ b' # post'"
    and mx': "\<forall>j\<in>set (range_list (range_up 0 4)).
        score_at column_mask 0 (range_up 0 4) j \<le> score_at column_mask 0 (range_up 0 4) b'"
    and lt': "\<forall>j\<in>set post'.
        score_at column_mask 0 (range_up 0 4) j < score_at column_mask 0 (range_up 0 4) b'"
    by blast
  from b' have b2: "b' = 2" by (simp add: column_mask_result)
  from dec' have "[0, 1, 2, 3] = pre' @ 2 # post'" by (simp only: v b2)
  then have "(3::int) \<in> set post'"
    by (rule after_in_post) simp_all
  with lt' have e2: "score_at column_mask 0 (range_up 0 4) 3 < score_at column_mask 0 (range_up 0 4) 2"
    by (simp add: b2)
  from mx' have e1: "score_at column_mask 0 (range_up 0 4) 0 \<le> score_at column_mask 0 (range_up 0 4) 2"
    by (simp add: v b2)
  show ?thesis
    by (intro conjI h1(1) u h2 nine_mask_result c1 c2 k1(1) v k2 fg column_mask_result e1 e2)
qed

text \<open>
  Claim C9: for every mask, a scan range of span \<open>|stop - start| = 0\<close> returns \<open>start\<close>
  at once (no line of the mask is read, so no index can be out of bounds).
\<close>

theorem zero_span_returns_start:
  "total_span_of r = 0 \<Longrightarrow> find_best_border_line roi_mask axis r = Inr (start r)"
  by (simp add: find_best_border_line_def total_span_of_def)

theorem zero_span_returns_start_witness:
  "total_span_of (range_up 5 5) = 0
   \<and> find_best_border_line tie_mask 1 (range_up 5 5) = Inr 5
   \<and> total_span_of (range_down 0 0) = 0
   \<and> find_best_border_line (zero_mask 0 0) 0 (range_down 0 0) = Inr 0"
proof -
  have a: "total_span_of (range_up 5 5) = 0" "total_span_of (range_down 0 0) = 0"
    by (simp_all add: total_span_of_def range_up_def range_down_def)
  from zero_span_returns_start [OF a(1), of tie_mask 1]
    zero_span_returns_start [OF a(2), of "zero_mask 0 0" 0] a
  show ?thesis by (simp add: range_up_def range_down_def)
qed

text \<open>
  Claim C10: for every mask and every non-empty scan range, an index the search returns is
  a member of the scanned sequence, from \<open>start\<close> inclusive to \<open>stop\<close> exclusive in the
  direction of the step; and the search does return such an index when the scanned indices
  are valid for the mask. The reason is the one the claim gives: every score is above the
  initial maximum \<open>-1\<close>, so the first scanned index replaces the initial value.
\<close>

theorem find_best_in_range:
  assumes "range_list r \<noteq> []"
  shows "(find_best_border_line roi_mask axis r = Inr b \<longrightarrow>
            b \<in> set (range_list r)
            \<and> (0 < step r \<longrightarrow> start r \<le> b \<and> b < stop r)
            \<and> (step r < 0 \<longrightarrow> stop r < b \<and> b \<le> start r))
     \<and> ((\<forall>i\<in>set (range_list r). in_bounds roi_mask axis i) \<longrightarrow>
            (\<exists>b'\<in>set (range_list r). find_best_border_line roi_mask axis r = Inr b'))
     \<and> (- 1 :: rat) < score_at roi_mask axis r i"
proof -
  have mem: "b' \<in> set (range_list r)"
    if "find_best_border_line roi_mask axis r = Inr b'" for b'
    using find_best_result [OF assms that] by auto
  have "0 \<le> score_at roi_mask axis r i" by (rule score_at_nonneg)
  then have "(- 1 :: rat) < score_at roi_mask axis r i" by simp
  moreover have "(\<forall>i\<in>set (range_list r). in_bounds roi_mask axis i) \<longrightarrow>
      (\<exists>b'\<in>set (range_list r). find_best_border_line roi_mask axis r = Inr b')"
    using find_best_returns [of r roi_mask axis] mem by blast
  ultimately show ?thesis using mem [of b] range_list_bounds [of b r] by blast
qed

theorem find_best_in_range_witness:
  "range_list (range_down 2 (- 1)) = [2, 1, 0]
   \<and> list_all (in_bounds tie_mask 1) (range_list (range_down 2 (- 1)))
   \<and> find_best_border_line tie_mask 1 (range_down 2 (- 1)) = Inr 0
   \<and> (0::int) \<in> set (range_list (range_down 2 (- 1)))
   \<and> stop (range_down 2 (- 1)) < 0 \<and> 0 \<le> start (range_down 2 (- 1))
   \<and> range_list (range_up 1 4) = [1, 2, 3]
   \<and> find_best_border_line tie_mask 1 (range_up 1 4) = Inr 2
   \<and> (2::int) \<in> set (range_list (range_up 1 4))
   \<and> start (range_up 1 4) \<le> 2 \<and> 2 < stop (range_up 1 4)"
proof -
  have d: "range_list (range_down 2 (- 1)) = [2, 1, 0]" by code_simp
  have u: "range_list (range_up 1 4) = [1, 2, 3]" by code_simp
  have ne: "range_list (range_down 2 (- 1)) \<noteq> []" "range_list (range_up 1 4) \<noteq> []"
    by (simp_all add: d u)
  have ib: "list_all (in_bounds tie_mask 1) (range_list (range_down 2 (- 1)))"
    by (simp add: d in_bounds_def tie_mask_def)
  have v: "find_best_border_line tie_mask 1 (range_down 2 (- 1)) = Inr 0" by code_simp
  have w: "find_best_border_line tie_mask 1 (range_up 1 4) = Inr 2" by code_simp
  have sd: "step (range_down 2 (- 1)) < 0" by (simp add: range_down_def)
  have su: "0 < step (range_up 1 4)" by (simp add: range_up_def)
  from find_best_in_range [OF ne(1), of tie_mask 1 0] v sd
  have m1: "(0::int) \<in> set (range_list (range_down 2 (- 1)))"
    and m2: "stop (range_down 2 (- 1)) < 0" and m3: "0 \<le> start (range_down 2 (- 1))"
    by blast+
  from find_best_in_range [OF ne(2), of tie_mask 1 2] w su
  have n1: "(2::int) \<in> set (range_list (range_up 1 4))"
    and n2: "start (range_up 1 4) \<le> 2" and n3: "2 < stop (range_up 1 4)"
    by blast+
  show ?thesis by (intro conjI d ib v m1 m2 m3 u w n1 n2 n3)
qed

section \<open>Properties of remove_border\<close>

text \<open>
  The rounded products of lines 121 and 123 at two ratios that are not doubles themselves:
  \<^verbatim>\<open>int(100 * 0.29)\<close> is 28 and \<^verbatim>\<open>int(40 * 0.35)\<close> is 14.
\<close>

lemma search_zone_rounding:
  "py_int (fl (of_int 100 * fl (29 / 100))) = 28" "py_int (fl (of_int 40 * fl (35 / 100))) = 14"
  by code_simp+

lemma sample_crop_padding_20:
  "crop_coordinates (sample_cv2 [square_contour]) (blank_image 30 30) (1 / 4) 20
     = Inr (35, 35, 24, 24)"
  by code_simp

lemma sample_crop_padding_12:
  "crop_coordinates (sample_cv2 [square_contour]) (blank_image 30 30) (1 / 4) 12
     = Inr (27, 27, 32, 32)"
  by code_simp

text \<open>
  Claim C5: \<^verbatim>\<open>remove_border\<close> returns its input, and raises nothing, when the image is
  absent, when its height or width is below 30, when no contour is found, when the crop
  coordinates that were computed are degenerate (\<open>x1 >= x2\<close> or \<open>y1 >= y2\<close>), and when
  the cropped region is lower or narrower than 10 pixels.
\<close>

theorem remove_border_passthrough:
  "remove_border cv None ratio padding = Inr None
   \<and> (shape0 img < 30 \<or> shape1 img < 30 \<longrightarrow>
        remove_border cv (Some img) ratio padding = Inr (Some img))
   \<and> (contours_of cv img = [] \<longrightarrow>
        remove_border cv (Some img) ratio padding = Inr (Some img))
   \<and> (crop_coordinates cv img ratio padding = Inr (x1, y1, x2, y2)
        \<and> (x2 \<le> x1 \<or> y2 \<le> y1) \<longrightarrow>
        remove_border cv (Some img) ratio padding = Inr (Some img))
   \<and> (crop_coordinates cv img ratio padding = Inr (x1, y1, x2, y2)
        \<and> (shape0 (cropped_of cv img (x1, y1, x2, y2)) < 10
           \<or> shape1 (cropped_of cv img (x1, y1, x2, y2)) < 10) \<longrightarrow>
        remove_border cv (Some img) ratio padding = Inr (Some img))"
  by (simp add: remove_border_def Let_def)

theorem remove_border_passthrough_witness:
  "remove_border (sample_cv2 []) None (1 / 4) 5 = Inr None
   \<and> shape0 (blank_image 10 10) < 30
   \<and> remove_border (sample_cv2 [square_contour]) (Some (blank_image 10 10)) (1 / 4) 5
       = Inr (Some (blank_image 10 10))
   \<and> contours_of (sample_cv2 []) (blank_image 30 30) = []
   \<and> remove_border (sample_cv2 []) (Some (blank_image 30 30)) (1 / 4) 5
       = Inr (Some (blank_image 30 30))
   \<and> crop_coordinates (sample_cv2 [square_contour]) (blank_image 30 30) (1 / 4) 20
       = Inr (35, 35, 24, 24)
   \<and> remove_border (sample_cv2 [square_contour]) (Some (blank_image 30 30)) (1 / 4) 20
       = Inr (Some (blank_image 30 30))
   \<and> crop_coordinates (sample_cv2 [square_contour]) (blank_image 30 30) (1 / 4) 12
       = Inr (27, 27, 32, 32)
   \<and> shape0 (cropped_of (sample_cv2 [square_contour]) (blank_image 30 30) (27, 27, 32, 32)) < 10
   \<and> remove_border (sample_cv2 [square_contour]) (Some (blank_image 30 30)) (1 / 4) 12
       = Inr (Some (blank_image 30 30))"
proof -
  have n: "remove_border (sample_cv2 []) None (1 / 4) 5 = Inr None"
    using remove_border_passthrough [where cv = "sample_cv2 []" and ratio = "1 / 4"
        and padding = 5] by blast
  have s: "shape0 (blank_image 10 10) < 30" by (simp add: blank_image_def)
  have s': "remove_border (sample_cv2 [square_contour]) (Some (blank_image 10 10)) (1 / 4) 5
       = Inr (Some (blank_image 10 10))"
    using s remove_border_passthrough [where cv = "sample_cv2 [square_contour]"
        and img = "blank_image 10 10" and ratio = "1 / 4" and padding = 5] by blast
  have c: "contours_of (sample_cv2 []) (blank_image 30 30) = []"
    by (simp add: contours_of_def sample_cv2_def)
  have c': "remove_border (sample_cv2 []) (Some (blank_image 30 30)) (1 / 4) 5
       = Inr (Some (blank_image 30 30))"
    using c remove_border_passthrough [where cv = "sample_cv2 []"
        and img = "blank_image 30 30" and ratio = "1 / 4" and padding = 5] by blast
  note d = sample_crop_padding_20
  have d': "remove_border (sample_cv2 [square_contour]) (Some (blank_image 30 30)) (1 / 4) 20
       = Inr (Some (blank_image 30 30))"
    using d remove_border_passthrough [where cv = "sample_cv2 [square_contour]"
        and img = "blank_image 30 30" and ratio = "1 / 4" and padding = 20
        and ?x1.0 = 35 and ?y1.0 = 35 and ?x2.0 = 24 and ?y2.0 = 24] by simp
  note e = sample_crop_padding_12
  have f: "shape0 (cropped_of (sample_cv2 [square_contour]) (blank_image 30 30)
       (27, 27, 32, 32)) < 10"
    by code_simp
  have e': "remove_border (sample_cv2 [square_contour]) (Some (blank_image 30 30)) (1 / 4) 12
       = Inr (Some (blank_image 30 30))"
    using e f remove_border_passthrough [where cv = "sample_cv2 [square_contour]"
        and img = "blank_image 30 30" and ratio = "1 / 4" and padding = 12
        and ?x1.0 = 27 and ?y1.0 = 27 and ?x2.0 = 32 and ?y2.0 = 32] by blast
  show ?thesis by (intro conjI n s s' c c' d d' e f e')
qed

end
